theory Spec2Isabelle
  imports Complex_Main
begin

section \<open>Lyrics synchronisation of the music player (frontend/script.js)\<close>

text \<open>
  The script exists in two variants. The later one (with the quality selector) holds
  \<open>parseCue\<close>, \<open>loadAllCues\<close>, \<open>appendLyricsIfNeeded\<close>, \<open>syncLyrics\<close> and the seek
  listener that reveals lines; the earlier one holds \<open>processCue\<close>, whose word
  scanning is the same text as that of \<open>parseCue\<close>.

  Times are JavaScript numbers. They are modelled by exact rationals: no rounding of
  doubles is modelled. A number that may be \<open>NaN\<close> (the result of \<open>parseInt\<close> and
  \<open>parseFloat\<close>, hence a word's time) has the type \<open>number\<close>. Strings are lists of
  characters, one \<open>char\<close> per code unit below 256.
\<close>

subsection \<open>Numbers and strings of the host language\<close>

datatype number = Num rat | NaN

fun num_add :: "number \<Rightarrow> number \<Rightarrow> number" where
  "num_add (Num a) (Num b) = Num (a + b)"
| "num_add _ _ = NaN"

fun num_mul :: "number \<Rightarrow> number \<Rightarrow> number" where
  "num_mul (Num a) (Num b) = Num (a * b)"
| "num_mul _ _ = NaN"

fun num_sub :: "number \<Rightarrow> number \<Rightarrow> number" where
  "num_sub (Num a) (Num b) = Num (a - b)"
| "num_sub _ _ = NaN"

text \<open>\<open>a >= b\<close> for a finite \<open>a\<close>: a comparison with \<open>NaN\<close> is false.\<close>

fun num_ge :: "rat \<Rightarrow> number \<Rightarrow> bool" where
  "num_ge a (Num b) = (b \<le> a)"
| "num_ge a NaN = False"

text \<open>White space as \<open>\s\<close> and \<open>trim\<close> see it, among the code units below 256.\<close>

definition is_space :: "char \<Rightarrow> bool" where
  "is_space c =
     (c \<in> set [CHR 0x09, CHR 0x0A, CHR 0x0B, CHR 0x0C, CHR 0x0D, CHR '' '', CHR 0xA0])"

definition is_digit :: "char \<Rightarrow> bool" where
  "is_digit c = (c \<in> set ''0123456789'')"

definition digit_val :: "char \<Rightarrow> nat" where
  "digit_val c = of_char c - 48"

definition digits_val :: "string \<Rightarrow> nat" where
  "digits_val ds = foldl (\<lambda>a c. 10 * a + digit_val c) 0 ds"

definition trim :: "string \<Rightarrow> string" where
  "trim s = rev (dropWhile is_space (rev (dropWhile is_space s)))"

text \<open>\<open>s.split(':')\<close>: the pieces between the separators; the empty string gives one
  empty piece.\<close>

fun split_on :: "char \<Rightarrow> string \<Rightarrow> string list" where
  "split_on sep [] = ['''']"
| "split_on sep (c # cs) =
     (if c = sep then [] # split_on sep cs
      else (case split_on sep cs of [] \<Rightarrow> [c # ''''] | p # ps \<Rightarrow> (c # p) # ps))"

text \<open>\<open>s.split(/\s+/)\<close>: the pieces between the maximal runs of white space, with an
  empty piece where the string starts or ends with white space.\<close>

function split_ws :: "string \<Rightarrow> string list" where
  "split_ws [] = ['''']"
| "split_ws (c # cs) =
     (if is_space c then [] # split_ws (dropWhile is_space cs)
      else (case split_ws cs of [] \<Rightarrow> [c # ''''] | p # ps \<Rightarrow> (c # p) # ps))"
  by pat_completeness auto
termination
  by (relation "measure length") (auto simp: le_imp_less_Suc length_dropWhile_le)

text \<open>\<open>parseInt(s, 10)\<close>: leading white space, an optional sign, then the longest run
  of digits; \<open>NaN\<close> when there is no digit.\<close>

definition signed :: "string \<Rightarrow> rat \<times> string" where
  "signed s =
     (case s of
        [] \<Rightarrow> (1, s)
      | c # r \<Rightarrow> if c = CHR ''-'' then (- 1, r) else if c = CHR ''+'' then (1, r) else (1, s))"

definition parseInt10 :: "string \<Rightarrow> number" where
  "parseInt10 s =
     (let (sg, r) = signed (dropWhile is_space s);
          ds = takeWhile is_digit r
      in if ds = [] then NaN else Num (sg * of_nat (digits_val ds)))"

text \<open>\<open>parseFloat(s)\<close> on decimal literals without exponent: leading white space, an
  optional sign, digits, and an optional fraction; \<open>NaN\<close> when there is no digit. An
  exponent part and the literal \<open>Infinity\<close> are not modelled: the only caller passes
  pieces of a string made of digits, colons and one dot.\<close>

definition parseFloat :: "string \<Rightarrow> number" where
  "parseFloat s =
     (let (sg, r) = signed (dropWhile is_space s);
          ip = takeWhile is_digit r;
          fp = (case dropWhile is_digit r of
                  [] \<Rightarrow> []
                | c # r' \<Rightarrow> if c = CHR ''.'' then takeWhile is_digit r' else [])
      in if ip = [] \<and> fp = [] then NaN
         else Num (sg * (of_nat (digits_val ip) + of_nat (digits_val fp) / 10 ^ length fp)))"

subsection \<open>The cue parser\<close>

text \<open>\<open>timeToSeconds\<close>: three pieces are hours, minutes and seconds, two pieces are
  minutes and seconds, anything else is 0.\<close>

definition timeToSeconds :: "string \<Rightarrow> number" where
  "timeToSeconds timeStr =
     (let parts = split_on CHR '':'' timeStr;
          seconds = Num 0
      in if length parts = 3 then
           num_add (num_add (num_add seconds (num_mul (parseInt10 (parts ! 0)) (Num 3600)))
                            (num_mul (parseInt10 (parts ! 1)) (Num 60)))
                   (parseFloat (parts ! 2))
         else if length parts = 2 then
           num_add (num_add seconds (num_mul (parseInt10 (parts ! 0)) (Num 60)))
                   (parseFloat (parts ! 1))
         else seconds)"

text \<open>
  The pattern \<open>/<(\d{2}:\d{2}:\d{2}\.\d{3})>([^<]+)/g\<close>. Its first group is a fixed
  sequence of digits and literal characters; its second group is the longest non-empty
  run of characters other than \<open><\<close>.
\<close>

datatype atom = Digit | Lit char

fun match_atoms :: "atom list \<Rightarrow> string \<Rightarrow> string option" where
  "match_atoms [] s = Some s"
| "match_atoms (a # as) [] = None"
| "match_atoms (Digit # as) (c # cs) = (if is_digit c then match_atoms as cs else None)"
| "match_atoms (Lit l # as) (c # cs) = (if c = l then match_atoms as cs else None)"

definition stamp_atoms :: "atom list" where
  "stamp_atoms =
     [Digit, Digit, Lit CHR '':'', Digit, Digit, Lit CHR '':'', Digit, Digit, Lit CHR ''.'',
      Digit, Digit, Digit]"

text \<open>A match of the pattern that starts at the first character of \<open>s\<close>: the two
  groups and the length of the match.\<close>

definition wordRegex_at :: "string \<Rightarrow> (string \<times> string \<times> nat) option" where
  "wordRegex_at s =
     (case match_atoms (Lit CHR ''<'' # stamp_atoms @ [Lit CHR ''>'']) s of
        None \<Rightarrow> None
      | Some r \<Rightarrow>
          (let g2 = takeWhile (\<lambda>c. c \<noteq> CHR ''<'') r
           in if g2 = [] then None else Some (take 12 (drop 1 s), g2, 14 + length g2)))"

text \<open>The loop \<open>while ((match = wordRegex.exec(text)) !== null)\<close>: every call searches
  from \<open>lastIndex\<close>, the end of the previous match. The first argument is the number
  of characters still to skip to reach \<open>lastIndex\<close>. The result lists the groups of the
  successive matches.\<close>

fun wordRegex_exec :: "nat \<Rightarrow> string \<Rightarrow> (string \<times> string) list" where
  "wordRegex_exec k [] = []"
| "wordRegex_exec (Suc k) (c # cs) = wordRegex_exec k cs"
| "wordRegex_exec 0 (c # cs) =
     (case wordRegex_at (c # cs) of
        None \<Rightarrow> wordRegex_exec 0 cs
      | Some (g1, g2, n) \<Rightarrow> (g1, g2) # wordRegex_exec (n - 1) cs)"

record word =
  time :: number
  text' :: string

text \<open>The body shared by \<open>parseCue\<close> and \<open>processCue\<close>: the words of a cue text, for
  the cue's start time.\<close>

definition matchWord :: "string \<times> string \<Rightarrow> word list" where
  "matchWord m =
     (let wordText = trim (snd m)
      in if wordText \<noteq> [] then [\<lparr>time = timeToSeconds (fst m), text' = wordText\<rparr>] else [])"

definition cueWords :: "rat \<Rightarrow> string \<Rightarrow> word list" where
  "cueWords start0 text0 =
     (let matches = wordRegex_exec 0 text0;
          foundWords = (matches \<noteq> []);
          ws = concat (map matchWord matches)
      in if \<not> foundWords \<and> trim text0 \<noteq> [] then
           ws @ map (\<lambda>w. \<lparr>time = Num start0, text' = trim w\<rparr>)
                    (filter (\<lambda>w. trim w \<noteq> []) (split_ws text0))
         else ws)"

record vttcue =
  startTime :: rat
  endTime :: rat
  cueText :: string

record lyric =
  index :: nat
  start :: rat
  end' :: rat
  words :: "word list"

definition parseCue :: "vttcue \<Rightarrow> nat \<Rightarrow> lyric" where
  "parseCue cue cueIndex =
     \<lparr>index = cueIndex, start = startTime cue, end' = endTime cue,
      words = cueWords (startTime cue) (cueText cue)\<rparr>"

text \<open>The loop of \<open>loadAllCues\<close>: a parsed cue is pushed when it has a word.\<close>

fun loadLoop :: "vttcue list \<Rightarrow> nat \<Rightarrow> lyric list \<Rightarrow> lyric list" where
  "loadLoop [] i acc = acc"
| "loadLoop (cue # rest) i acc =
     (let parsedCue = parseCue cue i
      in loadLoop rest (Suc i) (if length (words parsedCue) > 0 then acc @ [parsedCue] else acc))"

text \<open>\<open>processCue\<close> of the earlier variant: the line has no index, and is pushed on
  the list \<open>lyrics\<close> when it has a word.\<close>

record lyricLine =
  lineStart :: rat
  lineEnd :: rat
  lineWords :: "word list"

definition processCue :: "lyricLine list \<Rightarrow> vttcue \<Rightarrow> lyricLine list" where
  "processCue lyrics cue =
     (let currentCue = \<lparr>lineStart = startTime cue, lineEnd = endTime cue,
                        lineWords = cueWords (startTime cue) (cueText cue)\<rparr>
      in if length (lineWords currentCue) > 0 then lyrics @ [currentCue] else lyrics)"

subsection \<open>The page: revealed lines, line elements, pending timeouts\<close>

text \<open>
  A line element (\<open>div.lyrics-line\<close>) carries the classes \<open>active\<close> and \<open>played\<close>, and
  one \<open>span.word\<close> per word, each with or without the class \<open>active\<close>.
\<close>

record line_elem =
  el_active :: bool
  el_played :: bool
  el_words :: "bool list"

text \<open>
  The module's variables and the part of the document it changes. \<open>elems\<close> is the
  store of every line element created so far; an element's address is its position
  there. \<open>lyricsDisplay\<close> lists the children of the lyrics container in document
  order, each with the number \<open>n\<close> of its id \<open>cue-n\<close> and its address. \<open>timers\<close> lists
  the callbacks passed to \<open>setTimeout\<close> that have not run yet, oldest first, each by
  the address of the element it captured. The indices \<open>currentLyricIndex\<close> and
  \<open>previousLyricIndex\<close> are integers, \<open>-1\<close> for none.
\<close>

record player =
  allCues :: "lyric list"
  displayedCues :: "nat set"
  currentLyricIndex :: int
  previousLyricIndex :: int
  elems :: "line_elem list"
  lyricsDisplay :: "(nat \<times> nat) list"
  timers :: "nat list"

definition initial :: player where
  "initial =
     \<lparr>allCues = [], displayedCues = {}, currentLyricIndex = - 1, previousLyricIndex = - 1,
      elems = [], lyricsDisplay = [], timers = []\<rparr>"

text \<open>\<open>document.getElementById(`cue-${i}`)\<close>: the first child with that id.\<close>

definition getElementById :: "player \<Rightarrow> int \<Rightarrow> nat option" where
  "getElementById st i = (if i < 0 then None else map_of (lyricsDisplay st) (nat i))"

text \<open>\<open>loadAllCues\<close> rebuilds \<open>allCues\<close> and replaces the content of the lyrics container
  by the placeholder; it leaves \<open>displayedCues\<close> and the two indices as they are.\<close>

definition loadAllCues :: "player \<Rightarrow> vttcue list \<Rightarrow> player" where
  "loadAllCues st cues = st\<lparr>allCues := loadLoop cues 0 [], lyricsDisplay := []\<rparr>"

text \<open>\<open>appendLyricLine\<close> creates the element of a line, with one span per word and no
  class but \<open>lyrics-line\<close>, and appends it to the container.\<close>

definition appendLyricLine :: "player \<Rightarrow> lyric \<Rightarrow> nat \<Rightarrow> player" where
  "appendLyricLine st cue i =
     st\<lparr>elems := elems st @
                   [\<lparr>el_active = False, el_played = False,
                     el_words = replicate (length (words cue)) False\<rparr>],
        lyricsDisplay := lyricsDisplay st @ [(i, length (elems st))]\<rparr>"

text \<open>The \<open>forEach\<close> of \<open>appendLyricsIfNeeded\<close>, which the seek listener repeats word
  for word: the third argument is the index of the first cue of the list.\<close>

fun revealLoop :: "rat \<Rightarrow> lyric list \<Rightarrow> nat \<Rightarrow> player \<Rightarrow> player" where
  "revealLoop t [] i st = st"
| "revealLoop t (cue # rest) i st =
     (let shouldDisplay = (t \<ge> start cue - 2);
          alreadyDisplayed = (i \<in> displayedCues st)
      in revealLoop t rest (Suc i)
           (if shouldDisplay \<and> \<not> alreadyDisplayed
            then (appendLyricLine st cue i)\<lparr>displayedCues := insert i (displayedCues st)\<rparr>
            else st))"

definition appendLyricsIfNeeded :: "player \<Rightarrow> rat \<Rightarrow> player" where
  "appendLyricsIfNeeded st curTime =
     (if length (allCues st) = 0 then st else revealLoop curTime (allCues st) 0 st)"

text \<open>The listener of the seek bar's \<open>input\<close> event, for the new time it computes (a
  finite number: assigning anything else to \<open>audio.currentTime\<close> throws before the loop).\<close>

definition seekInput :: "player \<Rightarrow> rat \<Rightarrow> player" where
  "seekInput st newTime =
     (if length (allCues st) > 0 then revealLoop newTime (allCues st) 0 st else st)"

text \<open>The loop of \<open>syncLyrics\<close> that looks for the active line: it stops at the first
  revealed line whose window holds the time.\<close>

fun findActive :: "rat \<Rightarrow> nat set \<Rightarrow> lyric list \<Rightarrow> nat \<Rightarrow> int" where
  "findActive t D [] i = - 1"
| "findActive t D (cue # rest) i =
     (if i \<in> D \<and> t \<ge> start cue \<and> t \<le> end' cue + 1 / 10 then int i
      else findActive t D rest (Suc i))"

text \<open>The \<open>forEach\<close> over the words of the active cue: \<open>n\<close> is \<open>cue.words.length\<close>, the
  list of booleans the spans of the element. A word is highlighted from its time on,
  the last word of the line from 0.1 seconds before its time.\<close>

definition shouldHighlight :: "rat \<Rightarrow> nat \<Rightarrow> word \<Rightarrow> nat \<Rightarrow> bool" where
  "shouldHighlight curTime n wordCue i =
     (num_ge curTime (time wordCue) \<or>
      (i = n - 1 \<and> num_ge curTime (num_sub (time wordCue) (Num (1 / 10)))))"

fun highlightWords :: "rat \<Rightarrow> nat \<Rightarrow> word list \<Rightarrow> nat \<Rightarrow> bool list \<Rightarrow> bool list" where
  "highlightWords t n [] i spans = spans"
| "highlightWords t n (wordCue # rest) i spans =
     highlightWords t n rest (Suc i)
       (if i < length spans then spans[i := shouldHighlight t n wordCue i] else spans)"

text \<open>The three parts of \<open>syncLyrics\<close> after the reveal pass.\<close>

definition completePrevious :: "player \<Rightarrow> int \<Rightarrow> player" where
  "completePrevious st activeIndex =
     (if previousLyricIndex st \<noteq> - 1 \<and> previousLyricIndex st \<noteq> activeIndex then
        (case getElementById st (previousLyricIndex st) of
           None \<Rightarrow> st
         | Some a \<Rightarrow>
             st\<lparr>elems := (elems st)
                   [a := (elems st ! a)\<lparr>el_words := map (\<lambda>_. True) (el_words (elems st ! a))\<rparr>],
                timers := timers st @ [a]\<rparr>)
      else st)"

definition activate :: "player \<Rightarrow> int \<Rightarrow> player" where
  "activate st activeIndex =
     (if activeIndex \<noteq> - 1 then
        (case getElementById st activeIndex of
           None \<Rightarrow> st
         | Some a \<Rightarrow>
             st\<lparr>elems := (elems st)[a := (elems st ! a)\<lparr>el_active := True, el_played := False\<rparr>]\<rparr>)
      else st)"

definition highlight :: "player \<Rightarrow> int \<Rightarrow> rat \<Rightarrow> player" where
  "highlight st activeIndex curTime =
     (if activeIndex \<noteq> - 1 then
        (let cue = allCues st ! nat activeIndex
         in case getElementById st activeIndex of
              None \<Rightarrow> st
            | Some a \<Rightarrow>
                st\<lparr>elems := (elems st)
                      [a := (elems st ! a)
                         \<lparr>el_words := highlightWords curTime (length (words cue)) (words cue) 0
                                        (el_words (elems st ! a))\<rparr>]\<rparr>)
      else st)"

definition syncLyrics :: "player \<Rightarrow> rat \<Rightarrow> player" where
  "syncLyrics st curTime =
     (if length (allCues st) = 0 then st
      else
        let st1 = appendLyricsIfNeeded st curTime;
            activeIndex = findActive curTime (displayedCues st1) (allCues st1) 0;
            st2 = (if activeIndex \<noteq> currentLyricIndex st1 then
                     (let st' = activate (completePrevious st1 activeIndex) activeIndex
                      in st'\<lparr>previousLyricIndex := currentLyricIndex st',
                             currentLyricIndex := activeIndex\<rparr>)
                   else st1)
        in highlight st2 activeIndex curTime)"

text \<open>The callback of \<open>setTimeout\<close>: the captured element loses \<open>active\<close>, gains
  \<open>played\<close>, and its words lose \<open>active\<close>. All delays are equal, so the oldest pending
  callback runs first.\<close>

definition timeoutFires :: "player \<Rightarrow> player" where
  "timeoutFires st =
     (case timers st of
        [] \<Rightarrow> st
      | a # rest \<Rightarrow>
          st\<lparr>elems := (elems st)
                [a := (elems st ! a)
                   \<lparr>el_active := False, el_played := True,
                    el_words := map (\<lambda>_. False) (el_words (elems st ! a))\<rparr>],
             timers := rest\<rparr>)"

text \<open>What happens to the player: the audio element's \<open>timeupdate\<close> (every tick, also
  the one that follows a seek), the seek bar's \<open>input\<close>, the arrival of a track's cues,
  and a pending timeout running.\<close>

datatype event = TimeUpdate rat | SeekInput rat | CuesLoaded "vttcue list" | Timeout

fun step :: "player \<Rightarrow> event \<Rightarrow> player" where
  "step st (TimeUpdate curTime) = syncLyrics st curTime"
| "step st (SeekInput newTime) = seekInput st newTime"
| "step st (CuesLoaded cues) = loadAllCues st cues"
| "step st Timeout = timeoutFires st"

definition run :: "player \<Rightarrow> event list \<Rightarrow> player" where
  "run st evs = foldl step st evs"

text \<open>The states after each tick of a run of ticks.\<close>

fun tickStates :: "player \<Rightarrow> rat list \<Rightarrow> player list" where
  "tickStates st [] = []"
| "tickStates st (t # ts) = syncLyrics st t # tickStates (syncLyrics st t) ts"

text \<open>The line of index \<open>i\<close> shows its word \<open>j\<close> as sung, is shown as played.\<close>

definition wordActive :: "player \<Rightarrow> nat \<Rightarrow> nat \<Rightarrow> bool" where
  "wordActive st i j =
     (case getElementById st (int i) of
        None \<Rightarrow> False
      | Some a \<Rightarrow> a < length (elems st) \<and> j < length (el_words (elems st ! a)) \<and>
                  el_words (elems st ! a) ! j)"

definition linePlayed :: "player \<Rightarrow> nat \<Rightarrow> bool" where
  "linePlayed st i =
     (case getElementById st (int i) of
        None \<Rightarrow> False
      | Some a \<Rightarrow> a < length (elems st) \<and> el_played (elems st ! a))"

text \<open>The window of a line, with \<open>END_SLACK = 0.1\<close>, and the look-ahead of 2 seconds.\<close>

definition inWindow :: "lyric \<Rightarrow> rat \<Rightarrow> bool" where
  "inWindow cue t = (start cue \<le> t \<and> t \<le> end' cue + 1 / 10)"

subsection \<open>The specification's tokens and markers\<close>

text \<open>
  The definitions of this subsection follow the words of the specification, not the
  code; the code is compared with them below. The white-space-delimited tokens of a
  text are its maximal runs of characters that are not white space, in order.
\<close>

function spec_tokens :: "string \<Rightarrow> string list" where
  "spec_tokens s =
     (let r = dropWhile is_space s
      in if r = [] then []
         else takeWhile (\<lambda>c. \<not> is_space c) r # spec_tokens (dropWhile (\<lambda>c. \<not> is_space c) r))"
  by pat_completeness auto
termination
proof (relation "measure length")
  fix s r :: string
  assume r: "r = dropWhile is_space s" and ne: "r \<noteq> []"
  then have "\<not> is_space (hd r)" using hd_dropWhile by metis
  with ne have "length (dropWhile (\<lambda>c. \<not> is_space c) r) < length r"
    by (cases r) (simp_all add: le_imp_less_Suc length_dropWhile_le)
  also have "length r \<le> length s" using r by (simp add: length_dropWhile_le)
  finally show "(dropWhile (\<lambda>c. \<not> is_space c) r, s) \<in> measure length" by simp
qed simp

text \<open>
  A marker of the form \<open><HH:MM:SS.mmm>\<close> with the token that follows it: two digits
  for the hours, the minutes and the seconds, three for the milliseconds, and a token
  that is not empty and holds no \<open><\<close>. Its time in seconds is hours times 3600 plus
  minutes times 60 plus seconds; the word it stands for has this time and the trimmed
  token as text, and exists when the trimmed token is not empty. \<open>short_stamp\<close> is the
  form \<open>MM:SS.mmm\<close>.
\<close>

record stamped =
  hh :: nat
  mm :: nat
  ss :: nat
  mmm :: nat
  token :: string

definition digit_char :: "nat \<Rightarrow> char" where
  "digit_char k = ''0123456789'' ! k"

definition two_digits :: "nat \<Rightarrow> string" where
  "two_digits n = [digit_char (n div 10), digit_char (n mod 10)]"

definition three_digits :: "nat \<Rightarrow> string" where
  "three_digits n = [digit_char (n div 100), digit_char (n div 10 mod 10), digit_char (n mod 10)]"

definition stamp :: "stamped \<Rightarrow> string" where
  "stamp x =
     two_digits (hh x) @ CHR '':'' # two_digits (mm x) @ CHR '':'' # two_digits (ss x) @
     CHR ''.'' # three_digits (mmm x)"

definition marked :: "stamped \<Rightarrow> string" where
  "marked x = CHR ''<'' # stamp x @ CHR ''>'' # token x"

definition well_formed :: "stamped \<Rightarrow> bool" where
  "well_formed x =
     (hh x < 100 \<and> mm x < 100 \<and> ss x < 100 \<and> mmm x < 1000 \<and>
      token x \<noteq> [] \<and> CHR ''<'' \<notin> set (token x))"

definition seconds_of :: "stamped \<Rightarrow> rat" where
  "seconds_of x =
     of_nat (hh x) * 3600 + of_nat (mm x) * 60 + (of_nat (ss x) + of_nat (mmm x) / 1000)"

definition spec_word :: "stamped \<Rightarrow> word list" where
  "spec_word x =
     (if trim (token x) \<noteq> [] then [\<lparr>time = Num (seconds_of x), text' = trim (token x)\<rparr>] else [])"

definition short_stamp :: "nat \<Rightarrow> nat \<Rightarrow> nat \<Rightarrow> string" where
  "short_stamp m s ms = two_digits m @ CHR '':'' # two_digits s @ CHR ''.'' # three_digits ms"

subsection \<open>Example cues\<close>

text \<open>A cue with word timestamps, a cue without whose range overlaps the first one's,
  and the lines that \<open>loadAllCues\<close> builds from them.\<close>

definition ex_cue0 :: vttcue where
  "ex_cue0 =
     \<lparr>startTime = 10, endTime = 14, cueText = ''<00:00:10.000>Hello <00:00:11.500>world''\<rparr>"

definition ex_cue1 :: vttcue where
  "ex_cue1 = \<lparr>startTime = 11, endTime = 20, cueText = ''more words''\<rparr>"

text \<open>Two cues without a word: white space only, and a marker followed by white
  space only.\<close>

definition ex_cue_blank :: vttcue where
  "ex_cue_blank = \<lparr>startTime = 5, endTime = 6, cueText = ''  ''\<rparr>"

definition ex_cue_marker_only :: vttcue where
  "ex_cue_marker_only = \<lparr>startTime = 5, endTime = 6, cueText = ''<00:00:10.000> ''\<rparr>"

text \<open>A cue without markers, a cue whose only marker has the form \<open>MM:SS.mmm\<close>, and
  the two markers of the first example cue.\<close>

definition ex_cue_plain :: vttcue where
  "ex_cue_plain = \<lparr>startTime = 3, endTime = 4, cueText = '' one  two three ''\<rparr>"

definition ex_cue_short :: vttcue where
  "ex_cue_short = \<lparr>startTime = 5, endTime = 8, cueText = ''<01:30.000>hi''\<rparr>"

definition ex_marked :: "stamped list" where
  "ex_marked =
     [\<lparr>hh = 0, mm = 0, ss = 10, mmm = 0, token = ''Hello ''\<rparr>,
      \<lparr>hh = 0, mm = 0, ss = 11, mmm = 500, token = ''world''\<rparr>]"

definition ex_loaded :: player where
  "ex_loaded = loadAllCues initial [ex_cue0, ex_cue1]"

text \<open>A run in which line 0 is active, then line 1, then none, and the timeout that
  the last tick has scheduled runs.\<close>

definition ex_events :: "event list" where
  "ex_events =
     [CuesLoaded [ex_cue0, ex_cue1], TimeUpdate 12, TimeUpdate 15, TimeUpdate 30, Timeout]"

subsection \<open>Invariants of the player\<close>

text \<open>The current index is \<open>-1\<close> or the index of a revealed line.\<close>

definition revealedOrNone :: "player \<Rightarrow> bool" where
  "revealedOrNone st =
     (currentLyricIndex st = - 1 \<or>
      (0 \<le> currentLyricIndex st \<and> nat (currentLyricIndex st) \<in> displayedCues st))"

section \<open>Properties\<close>

subsection \<open>The reveal pass\<close>

lemma revealLoop_allCues [simp]: "allCues (revealLoop t cs i st) = allCues st"
  by (induction cs arbitrary: i st) (simp_all add: appendLyricLine_def Let_def)

lemma revealLoop_indices [simp]:
  "currentLyricIndex (revealLoop t cs i st) = currentLyricIndex st"
  "previousLyricIndex (revealLoop t cs i st) = previousLyricIndex st"
  "timers (revealLoop t cs i st) = timers st"
  by (induction cs arbitrary: i st) (simp_all add: appendLyricLine_def Let_def)

lemma revealLoop_grows: "displayedCues st \<subseteq> displayedCues (revealLoop t cs i st)"
proof (induction cs arbitrary: i st)
  case Nil
  show ?case by simp
next
  case (Cons cue rest)
  let ?st' = "if start cue - 2 \<le> t \<and> i \<notin> displayedCues st
              then (appendLyricLine st cue i)\<lparr>displayedCues := insert i (displayedCues st)\<rparr>
              else st"
  have "displayedCues st \<subseteq> displayedCues ?st'"
    by (auto simp: appendLyricLine_def)
  also have "\<dots> \<subseteq> displayedCues (revealLoop t rest (Suc i) ?st')"
    by (rule Cons.IH)
  finally show ?case by (simp add: Let_def)
qed

lemma revealLoop_reveals:
  "j < length cs \<Longrightarrow> start (cs ! j) \<le> t + 2 \<Longrightarrow> i + j \<in> displayedCues (revealLoop t cs i st)"
proof (induction cs arbitrary: i j st)
  case Nil
  then show ?case by simp
next
  case (Cons cue rest)
  let ?st' = "if start cue - 2 \<le> t \<and> i \<notin> displayedCues st
              then (appendLyricLine st cue i)\<lparr>displayedCues := insert i (displayedCues st)\<rparr>
              else st"
  show ?case
  proof (cases j)
    case 0
    with Cons.prems have "i \<in> displayedCues ?st'"
      by (auto simp: appendLyricLine_def)
    then have "i \<in> displayedCues (revealLoop t rest (Suc i) ?st')"
      using revealLoop_grows by blast
    with 0 show ?thesis by (simp add: Let_def)
  next
    case (Suc j')
    with Cons.prems have "Suc i + j' \<in> displayedCues (revealLoop t rest (Suc i) ?st')"
      by (intro Cons.IH) simp_all
    with Suc show ?thesis by (simp add: Let_def)
  qed
qed

lemma completePrevious_fields [simp]:
  "displayedCues (completePrevious st a) = displayedCues st"
  "allCues (completePrevious st a) = allCues st"
  "currentLyricIndex (completePrevious st a) = currentLyricIndex st"
  "previousLyricIndex (completePrevious st a) = previousLyricIndex st"
  "lyricsDisplay (completePrevious st a) = lyricsDisplay st"
  by (simp_all add: completePrevious_def split: option.splits)

lemma activate_fields [simp]:
  "displayedCues (activate st a) = displayedCues st"
  "allCues (activate st a) = allCues st"
  "currentLyricIndex (activate st a) = currentLyricIndex st"
  "previousLyricIndex (activate st a) = previousLyricIndex st"
  "lyricsDisplay (activate st a) = lyricsDisplay st"
  "timers (activate st a) = timers st"
  by (simp_all add: activate_def split: option.splits)

lemma highlight_fields [simp]:
  "displayedCues (highlight st a t) = displayedCues st"
  "allCues (highlight st a t) = allCues st"
  "currentLyricIndex (highlight st a t) = currentLyricIndex st"
  "previousLyricIndex (highlight st a t) = previousLyricIndex st"
  "lyricsDisplay (highlight st a t) = lyricsDisplay st"
  "timers (highlight st a t) = timers st"
  by (simp_all add: highlight_def Let_def split: option.splits)

lemma syncLyrics_displayed:
  "displayedCues (syncLyrics st t) = displayedCues (appendLyricsIfNeeded st t)"
  by (simp add: syncLyrics_def appendLyricsIfNeeded_def Let_def)

lemma step_grows: "displayedCues st \<subseteq> displayedCues (step st ev)"
proof (cases ev)
  case (TimeUpdate t)
  then show ?thesis
    using revealLoop_grows [of st t "allCues st" 0]
    by (simp add: syncLyrics_displayed appendLyricsIfNeeded_def)
next
  case (SeekInput t)
  then show ?thesis
    using revealLoop_grows [of st t "allCues st" 0] by (simp add: seekInput_def)
next
  case (CuesLoaded cues)
  then show ?thesis by (simp add: loadAllCues_def)
next
  case Timeout
  then show ?thesis by (simp add: timeoutFires_def split: list.splits)
qed

lemma ex_loaded_allCues:
  "allCues ex_loaded =
     [\<lparr>index = 0, start = 10, end' = 14,
       words = [\<lparr>time = Num 10, text' = ''Hello''\<rparr>, \<lparr>time = Num (23 / 2), text' = ''world''\<rparr>]\<rparr>,
      \<lparr>index = 1, start = 11, end' = 20,
       words = [\<lparr>time = Num 11, text' = ''more''\<rparr>, \<lparr>time = Num 11, text' = ''words''\<rparr>]\<rparr>]"
  by code_simp

text \<open>
  Claim C4. The set of revealed lines never loses a member: whatever happens to the
  player (ticks at any times, increasing or not, seeks in either direction, cues
  arriving, timeouts running), every index in \<open>displayedCues\<close> before is in it after.
\<close>

theorem revealed_set_never_shrinks: "displayedCues st \<subseteq> displayedCues (run st evs)"
proof (induction evs arbitrary: st)
  case Nil
  show ?case by (simp add: run_def)
next
  case (Cons ev evs)
  have "displayedCues st \<subseteq> displayedCues (step st ev)" by (rule step_grows)
  also have "\<dots> \<subseteq> displayedCues (run (step st ev) evs)" by (rule Cons.IH)
  finally show ?case by (simp add: run_def)
qed

text \<open>
  Claim C3. Right after the seek listener has run for the new time \<open>T\<close>, every line
  whose start is at most \<open>T + 2\<close> is in the revealed set, whatever the state before
  the seek was (so also when no tick came between the old position and \<open>T\<close>).
\<close>

theorem seek_reveals_eagerly:
  assumes "i < length (allCues st)" and "start (allCues st ! i) \<le> T + 2"
  shows "i \<in> displayedCues (seekInput st T) \<and> allCues (seekInput st T) = allCues st"
proof -
  from assms(1) have "length (allCues st) > 0" by auto
  moreover have "0 + i \<in> displayedCues (revealLoop T (allCues st) 0 st)"
    using assms by (rule revealLoop_reveals)
  ultimately show ?thesis by (simp add: seekInput_def)
qed

theorem seek_reveals_eagerly_witness:
  "1 < length (allCues ex_loaded) \<and> start (allCues ex_loaded ! 1) \<le> 9 + 2 \<and>
   displayedCues ex_loaded = {} \<and>
   1 \<in> displayedCues (seekInput ex_loaded 9) \<and>
   allCues (seekInput ex_loaded 9) = allCues ex_loaded"
proof -
  have h1: "1 < length (allCues ex_loaded)" by (simp add: ex_loaded_allCues)
  have h2: "start (allCues ex_loaded ! 1) \<le> 9 + 2" by (simp add: ex_loaded_allCues)
  have h3: "displayedCues ex_loaded = {}"
    by (simp add: ex_loaded_def loadAllCues_def initial_def)
  show ?thesis using seek_reveals_eagerly [OF h1 h2] h1 h2 h3 by simp
qed

subsection \<open>The active line\<close>

lemma findActive_found:
  "findActive t D cs i \<noteq> - 1 \<Longrightarrow>
   \<exists>k. findActive t D cs i = int (i + k) \<and> k < length cs \<and> i + k \<in> D \<and> inWindow (cs ! k) t \<and>
       (\<forall>j<k. \<not> (i + j \<in> D \<and> inWindow (cs ! j) t))"
proof (induction cs arbitrary: i)
  case Nil
  then show ?case by simp
next
  case (Cons cue rest)
  show ?case
  proof (cases "i \<in> D \<and> inWindow cue t")
    case True
    then have "findActive t D (cue # rest) i = int (i + 0)" by (simp add: inWindow_def)
    with True show ?thesis by (intro exI [of _ 0]) simp
  next
    case False
    then have eq: "findActive t D (cue # rest) i = findActive t D rest (Suc i)"
      by (auto simp: inWindow_def)
    with Cons.prems have "findActive t D rest (Suc i) \<noteq> - 1" by simp
    from Cons.IH [OF this] obtain k where k:
      "findActive t D rest (Suc i) = int (Suc i + k)" "k < length rest" "Suc i + k \<in> D"
      "inWindow (rest ! k) t" "\<forall>j<k. \<not> (Suc i + j \<in> D \<and> inWindow (rest ! j) t)"
      by blast
    have "\<forall>j<Suc k. \<not> (i + j \<in> D \<and> inWindow ((cue # rest) ! j) t)"
    proof (intro allI impI)
      fix j assume "j < Suc k"
      show "\<not> (i + j \<in> D \<and> inWindow ((cue # rest) ! j) t)"
      proof (cases j)
        case 0
        with False show ?thesis by simp
      next
        case (Suc j')
        with \<open>j < Suc k\<close> k(5) show ?thesis by simp
      qed
    qed
    with k eq show ?thesis by (intro exI [of _ "Suc k"]) simp
  qed
qed

lemma findActive_none:
  "findActive t D cs i = - 1 \<Longrightarrow> k < length cs \<Longrightarrow> \<not> (i + k \<in> D \<and> inWindow (cs ! k) t)"
proof (induction cs arbitrary: i k)
  case Nil
  then show ?case by simp
next
  case (Cons cue rest)
  from Cons.prems(1) have no: "\<not> (i \<in> D \<and> inWindow cue t)"
    by (auto simp: inWindow_def split: if_splits)
  then have eq: "findActive t D rest (Suc i) = - 1"
    using Cons.prems(1) by (auto simp: inWindow_def split: if_splits)
  show ?case
  proof (cases k)
    case 0
    with no show ?thesis by simp
  next
    case (Suc k')
    with Cons.prems(2) have "k' < length rest" by simp
    from Cons.IH [OF eq this] Suc show ?thesis by simp
  qed
qed

lemma syncLyrics_current:
  "allCues st \<noteq> [] \<Longrightarrow>
   currentLyricIndex (syncLyrics st t) =
     findActive t (displayedCues (appendLyricsIfNeeded st t)) (allCues st) 0"
  by (simp add: syncLyrics_def appendLyricsIfNeeded_def Let_def)

lemma syncLyrics_empty: "allCues st = [] \<Longrightarrow> syncLyrics st t = st"
  by (simp add: syncLyrics_def)

lemma findActive_revealed:
  "findActive t D cs 0 = - 1 \<or> (0 \<le> findActive t D cs 0 \<and> nat (findActive t D cs 0) \<in> D)"
  using findActive_found [of t D cs 0] by auto

lemma step_revealedOrNone: "revealedOrNone st \<Longrightarrow> revealedOrNone (step st ev)"
proof (cases ev)
  case (TimeUpdate t)
  assume inv: "revealedOrNone st"
  show ?thesis
  proof (cases "allCues st = []")
    case True
    with inv TimeUpdate show ?thesis by (simp add: syncLyrics_empty)
  next
    case False
    then show ?thesis
      using findActive_revealed [of t "displayedCues (appendLyricsIfNeeded st t)" "allCues st"]
      by (simp add: TimeUpdate revealedOrNone_def syncLyrics_current syncLyrics_displayed)
  qed
next
  case (SeekInput t)
  assume "revealedOrNone st"
  then show ?thesis
    using revealLoop_grows [of st t "allCues st" 0]
    by (auto simp: SeekInput revealedOrNone_def seekInput_def)
next
  case (CuesLoaded cues)
  assume "revealedOrNone st"
  then show ?thesis by (simp add: CuesLoaded revealedOrNone_def loadAllCues_def)
next
  case Timeout
  assume "revealedOrNone st"
  then show ?thesis
    by (simp add: Timeout revealedOrNone_def timeoutFires_def split: list.splits)
qed

lemma run_revealedOrNone: "revealedOrNone st \<Longrightarrow> revealedOrNone (run st evs)"
  unfolding run_def by (induction evs arbitrary: st) (simp_all add: step_revealedOrNone)

lemma initial_revealedOrNone: "revealedOrNone initial"
  by (simp add: revealedOrNone_def initial_def)

lemma window_revealed:
  assumes "k < length (allCues st)" and "inWindow (allCues st ! k) t"
  shows "k \<in> displayedCues (appendLyricsIfNeeded st t)"
proof -
  from assms(2) have "start (allCues st ! k) \<le> t + 2" by (simp add: inWindow_def)
  with assms(1) have "0 + k \<in> displayedCues (revealLoop t (allCues st) 0 st)"
    by (rule revealLoop_reveals)
  with assms(1) show ?thesis by (auto simp: appendLyricsIfNeeded_def)
qed

text \<open>
  Claim C5. A line that is selected as active is in the revealed set at the moment of
  its selection: the index that the selection loop of a tick finds is in
  \<open>displayedCues\<close> as the reveal pass of that tick has left it. And after any sequence
  of ticks, seeks, cue loads and timeouts from the initial state, the current index, if
  it is the index of a line, is in \<open>displayedCues\<close>.
\<close>

theorem active_line_is_revealed:
  "(findActive t (displayedCues (appendLyricsIfNeeded st t)) (allCues st) 0 = int k
      \<longrightarrow> k \<in> displayedCues (appendLyricsIfNeeded st t)) \<and>
   (currentLyricIndex (run initial evs) = int k \<longrightarrow> k \<in> displayedCues (run initial evs))"
proof (intro conjI impI)
  assume "findActive t (displayedCues (appendLyricsIfNeeded st t)) (allCues st) 0 = int k"
  then show "k \<in> displayedCues (appendLyricsIfNeeded st t)"
    using findActive_revealed [of t "displayedCues (appendLyricsIfNeeded st t)" "allCues st"]
    by auto
next
  assume "currentLyricIndex (run initial evs) = int k"
  then show "k \<in> displayedCues (run initial evs)"
    using run_revealedOrNone [OF initial_revealedOrNone, of evs]
    by (auto simp: revealedOrNone_def)
qed

theorem active_line_is_revealed_witness:
  "findActive 12 (displayedCues (appendLyricsIfNeeded ex_loaded 12)) (allCues ex_loaded) 0 = int 0 \<and>
   0 \<in> displayedCues (appendLyricsIfNeeded ex_loaded 12) \<and>
   currentLyricIndex (run initial [CuesLoaded [ex_cue0, ex_cue1], TimeUpdate 12]) = int 0 \<and>
   0 \<in> displayedCues (run initial [CuesLoaded [ex_cue0, ex_cue1], TimeUpdate 12])"
proof -
  have h1: "findActive 12 (displayedCues (appendLyricsIfNeeded ex_loaded 12))
              (allCues ex_loaded) 0 = int 0"
    by code_simp
  have h2: "currentLyricIndex (run initial [CuesLoaded [ex_cue0, ex_cue1], TimeUpdate 12]) = int 0"
    by code_simp
  show ?thesis
    using active_line_is_revealed
      [of 12 ex_loaded 0 "[CuesLoaded [ex_cue0, ex_cue1], TimeUpdate 12]"] h1 h2
    by blast
qed

text \<open>
  Claim C1, as the code has it. At a tick at which the window \<open>[start, end + 0.1]\<close> of
  at least one revealed line holds the tick time, the engine selects exactly one active
  line: the one with the lowest index among the revealed lines whose window holds the
  time. The selection loop runs upwards from index 0 and stops at the first such line.
\<close>

theorem lowest_index_line_is_active:
  assumes "k < length (allCues st)"
    and "k \<in> displayedCues (appendLyricsIfNeeded st t)"
    and "inWindow (allCues st ! k) t"
  shows "\<exists>a\<le>k. currentLyricIndex (syncLyrics st t) = int a \<and>
           a \<in> displayedCues (syncLyrics st t) \<and> inWindow (allCues st ! a) t \<and>
           (\<forall>j<a. \<not> (j \<in> displayedCues (syncLyrics st t) \<and> inWindow (allCues st ! j) t))"
proof -
  let ?D = "displayedCues (appendLyricsIfNeeded st t)"
  from assms(1) have ne: "allCues st \<noteq> []" by auto
  have "findActive t ?D (allCues st) 0 \<noteq> - 1"
    using findActive_none [of t ?D "allCues st" 0 k] assms by auto
  from findActive_found [OF this] obtain a where a:
    "findActive t ?D (allCues st) 0 = int a" "a < length (allCues st)" "a \<in> ?D"
    "inWindow (allCues st ! a) t" "\<forall>j<a. \<not> (j \<in> ?D \<and> inWindow (allCues st ! j) t)"
    by auto
  from a(5) assms(2,3) have "a \<le> k" by (meson not_le)
  with a ne show ?thesis
    by (auto simp: syncLyrics_current syncLyrics_displayed)
qed

theorem lowest_index_line_is_active_witness:
  "1 < length (allCues ex_loaded) \<and>
   1 \<in> displayedCues (appendLyricsIfNeeded ex_loaded 12) \<and>
   inWindow (allCues ex_loaded ! 1) 12 \<and>
   (\<exists>a\<le>1. currentLyricIndex (syncLyrics ex_loaded 12) = int a \<and>
      a \<in> displayedCues (syncLyrics ex_loaded 12) \<and> inWindow (allCues ex_loaded ! a) 12 \<and>
      (\<forall>j<a. \<not> (j \<in> displayedCues (syncLyrics ex_loaded 12) \<and>
                 inWindow (allCues ex_loaded ! j) 12)))"
proof -
  have h1: "1 < length (allCues ex_loaded)" by (simp add: ex_loaded_allCues)
  have h3: "inWindow (allCues ex_loaded ! 1) 12" by (simp add: ex_loaded_allCues inWindow_def)
  have h2: "1 \<in> displayedCues (appendLyricsIfNeeded ex_loaded 12)"
    using h1 h3 by (rule window_revealed)
  show ?thesis using lowest_index_line_is_active [OF h1 h2 h3] h1 h2 h3 by blast
qed

text \<open>
  The claim as the specification states it (the highest index wins) fails: the two
  example lines are both revealed and both windows hold the time 12, and the tick
  selects line 0, not line 1.
\<close>

theorem highest_index_not_selected:
  "0 \<in> displayedCues (syncLyrics ex_loaded 12) \<and>
   1 \<in> displayedCues (syncLyrics ex_loaded 12) \<and>
   inWindow (allCues ex_loaded ! 0) 12 \<and>
   inWindow (allCues ex_loaded ! 1) 12 \<and>
   currentLyricIndex (syncLyrics ex_loaded 12) = 0 \<and>
   currentLyricIndex (syncLyrics ex_loaded 12) \<noteq> 1"
  by code_simp

subsection \<open>Cues without words\<close>

lemma loadLoop_filter:
  "loadLoop cues i acc =
     acc @ filter (\<lambda>p. words p \<noteq> []) (map (\<lambda>(j, c). parseCue c j) (enumerate i cues))"
  by (induction cues arbitrary: i acc) (simp_all add: Let_def)

text \<open>
  Claim C9. A cue whose parse yields no word is not added to the line list, and
  nothing else happens: \<open>loadAllCues\<close> has no error path, it goes on with the
  remaining cues, and the list it builds holds exactly the parsed cues that have a
  word, in order, each with the index of its raw cue. So every line of the list has a
  non-empty word sequence. \<open>processCue\<close> of the earlier variant leaves its list
  unchanged for such a cue.
\<close>

theorem degenerate_cues_dropped:
  "allCues (loadAllCues st cues) =
     filter (\<lambda>p. words p \<noteq> []) (map (\<lambda>(j, c). parseCue c j) (enumerate 0 cues)) \<and>
   (\<forall>l \<in> set (allCues (loadAllCues st cues)). words l \<noteq> []) \<and>
   (words (parseCue cue i) = [] \<longrightarrow> loadLoop (cue # rest) i acc = loadLoop rest (Suc i) acc) \<and>
   (cueWords (startTime cue) (cueText cue) = [] \<longrightarrow> processCue lyrics cue = lyrics)"
  by (simp add: loadAllCues_def loadLoop_filter processCue_def)

theorem degenerate_cues_dropped_witness:
  "words (parseCue ex_cue_blank 0) = [] \<and>
   cueWords (startTime ex_cue_blank) (cueText ex_cue_blank) = [] \<and>
   allCues (loadAllCues initial [ex_cue_blank, ex_cue1]) =
     [\<lparr>index = 1, start = 11, end' = 20,
       words = [\<lparr>time = Num 11, text' = ''more''\<rparr>, \<lparr>time = Num 11, text' = ''words''\<rparr>]\<rparr>] \<and>
   loadLoop [ex_cue_blank, ex_cue1] 0 [] = loadLoop [ex_cue1] (Suc 0) [] \<and>
   processCue [] ex_cue_blank = []"
proof -
  have h1: "words (parseCue ex_cue_blank 0) = []" by code_simp
  have h2: "cueWords (startTime ex_cue_blank) (cueText ex_cue_blank) = []" by code_simp
  have h3: "allCues (loadAllCues initial [ex_cue_blank, ex_cue1]) =
     [\<lparr>index = 1, start = 11, end' = 20,
       words = [\<lparr>time = Num 11, text' = ''more''\<rparr>, \<lparr>time = Num 11, text' = ''words''\<rparr>]\<rparr>]"
    by code_simp
  show ?thesis
    using degenerate_cues_dropped
      [of initial "[ex_cue_blank, ex_cue1]" ex_cue_blank 0 "[ex_cue1]" "[]" "[]"] h1 h2 h3
    by blast
qed

text \<open>
  Claim C10. When the pattern matches at least once in a cue's text and every matched
  token is empty after trimming, the fallback that splits on white space is not
  applied: the cue has no word and is dropped. The witness is the text
  \<open><00:00:10.000>\<close> followed by a space, which splitting on white space would turn
  into one token.
\<close>

theorem marker_match_suppresses_fallback:
  assumes "wordRegex_exec 0 (cueText cue) \<noteq> []"
    and "\<forall>m \<in> set (wordRegex_exec 0 (cueText cue)). trim (snd m) = []"
  shows "words (parseCue cue i) = [] \<and> allCues (loadAllCues st [cue]) = [] \<and>
         processCue lyrics cue = lyrics"
proof -
  from assms(2) have "concat (map matchWord (wordRegex_exec 0 (cueText cue))) = []"
    by (simp add: matchWord_def)
  with assms(1) have "cueWords (startTime cue) (cueText cue) = []"
    by (simp add: cueWords_def Let_def)
  then show ?thesis
    by (simp add: parseCue_def loadAllCues_def processCue_def)
qed

theorem marker_match_suppresses_fallback_witness:
  "wordRegex_exec 0 (cueText ex_cue_marker_only) = [(''00:00:10.000'', '' '')] \<and>
   filter (\<lambda>w. trim w \<noteq> []) (split_ws (cueText ex_cue_marker_only)) = [''<00:00:10.000>''] \<and>
   words (parseCue ex_cue_marker_only 0) = [] \<and>
   allCues (loadAllCues initial [ex_cue_marker_only]) = [] \<and>
   processCue [] ex_cue_marker_only = []"
proof -
  have h0: "wordRegex_exec 0 (cueText ex_cue_marker_only) = [(''00:00:10.000'', '' '')]"
    by code_simp
  have h1: "wordRegex_exec 0 (cueText ex_cue_marker_only) \<noteq> []"
    by (simp add: h0)
  have h2: "\<forall>m \<in> set (wordRegex_exec 0 (cueText ex_cue_marker_only)). trim (snd m) = []"
    by (simp add: h0 trim_def is_space_def)
  have h3: "filter (\<lambda>w. trim w \<noteq> []) (split_ws (cueText ex_cue_marker_only)) = [''<00:00:10.000>'']"
    by code_simp
  show ?thesis
    using marker_match_suppresses_fallback [OF h1 h2, of 0 initial "[]"] h0 h3 by simp
qed

subsection \<open>Words of the active line\<close>

lemma highlightWords_length [simp]: "length (highlightWords t n ws i spans) = length spans"
  by (induction ws arbitrary: i spans) simp_all

lemma highlightWords_nth:
  "j < length spans \<Longrightarrow>
   highlightWords t n ws i spans ! j =
     (if i \<le> j \<and> j < i + length ws then shouldHighlight t n (ws ! (j - i)) j else spans ! j)"
proof (induction ws arbitrary: i spans)
  case Nil
  then show ?case by auto
next
  case (Cons w ws)
  let ?spans' = "if i < length spans then spans[i := shouldHighlight t n w i] else spans"
  have len: "j < length ?spans'" using Cons.prems by simp
  have "highlightWords t n (w # ws) i spans ! j = highlightWords t n ws (Suc i) ?spans' ! j"
    by simp
  also have "\<dots> = (if Suc i \<le> j \<and> j < Suc i + length ws
                    then shouldHighlight t n (ws ! (j - Suc i)) j else ?spans' ! j)"
    by (rule Cons.IH [OF len])
  also have "\<dots> = (if i \<le> j \<and> j < i + length (w # ws)
                    then shouldHighlight t n ((w # ws) ! (j - i)) j else spans ! j)"
  proof (cases "j = i")
    case True
    with Cons.prems show ?thesis by simp
  next
    case False
    show ?thesis
    proof (cases "i < j")
      case True
      then obtain d where d: "j = Suc (i + d)" using less_imp_Suc_add by blast
      then show ?thesis by simp
    next
      case False
      with \<open>j \<noteq> i\<close> show ?thesis by simp
    qed
  qed
  finally show ?case .
qed

lemma num_ge_mono: "t1 \<le> t2 \<Longrightarrow> num_ge t1 x \<Longrightarrow> num_ge t2 x"
  by (cases x) simp_all

lemma shouldHighlight_mono:
  "t1 \<le> t2 \<Longrightarrow> shouldHighlight t1 n w j \<Longrightarrow> shouldHighlight t2 n w j"
  unfolding shouldHighlight_def using num_ge_mono by blast

lemma revealLoop_extends:
  "\<exists>ext dext. elems (revealLoop t cs i st) = elems st @ ext \<and>
     lyricsDisplay (revealLoop t cs i st) = lyricsDisplay st @ dext \<and>
     (\<forall>e \<in> set ext. \<not> el_played e) \<and>
     (\<forall>p \<in> set dext. length (elems st) \<le> snd p)"
proof (induction cs arbitrary: i st)
  case Nil
  show ?case by simp
next
  case (Cons cue rest)
  let ?st' = "if start cue - 2 \<le> t \<and> i \<notin> displayedCues st
              then (appendLyricLine st cue i)\<lparr>displayedCues := insert i (displayedCues st)\<rparr>
              else st"
  obtain e1 d1 where 1: "elems ?st' = elems st @ e1" "lyricsDisplay ?st' = lyricsDisplay st @ d1"
    "\<forall>e \<in> set e1. \<not> el_played e" "\<forall>p \<in> set d1. length (elems st) \<le> snd p"
    by (cases "start cue - 2 \<le> t \<and> i \<notin> displayedCues st") (auto simp: appendLyricLine_def)
  from Cons.IH [of "Suc i" ?st'] obtain e2 d2 where 2:
    "elems (revealLoop t rest (Suc i) ?st') = elems ?st' @ e2"
    "lyricsDisplay (revealLoop t rest (Suc i) ?st') = lyricsDisplay ?st' @ d2"
    "\<forall>e \<in> set e2. \<not> el_played e" "\<forall>p \<in> set d2. length (elems ?st') \<le> snd p"
    by blast
  have "elems (revealLoop t (cue # rest) i st) = elems st @ (e1 @ e2)"
    using 1(1) 2(1) by (simp add: Let_def)
  moreover have "lyricsDisplay (revealLoop t (cue # rest) i st) = lyricsDisplay st @ (d1 @ d2)"
    using 1(2) 2(2) by (simp add: Let_def)
  moreover have "\<forall>e \<in> set (e1 @ e2). \<not> el_played e" using 1(3) 2(3) by auto
  moreover have "\<forall>p \<in> set (d1 @ d2). length (elems st) \<le> snd p"
    using 1(1,4) 2(4) by fastforce
  ultimately show ?case by blast
qed


lemma getElementById_nat [simp]: "getElementById st (int i) = map_of (lyricsDisplay st) i"
  by (simp add: getElementById_def)

lemma nth_update_spans:
  "a < length es \<Longrightarrow>
   length (el_words (es[b := e] ! a)) =
     (if a = b then length (el_words e) else length (el_words (es ! a)))"
  by (cases "a = b") simp_all

lemma highlight_shape:
  "length (elems (highlight st x t)) = length (elems st)"
  "a < length (elems st) \<Longrightarrow>
   length (el_words (elems (highlight st x t) ! a)) = length (el_words (elems st ! a))"
  by (auto simp: highlight_def Let_def nth_update_spans split: option.splits)

lemma wordActive_highlight:
  assumes "j < length (words (allCues st ! i))"
  shows "wordActive (highlight st (int i) t) i j \<longleftrightarrow>
     (\<exists>a. map_of (lyricsDisplay st) i = Some a \<and> a < length (elems st) \<and>
          j < length (el_words (elems st ! a)) \<and>
          shouldHighlight t (length (words (allCues st ! i))) (words (allCues st ! i) ! j) j)"
proof (cases "map_of (lyricsDisplay st) i")
  case None
  then show ?thesis by (simp add: wordActive_def highlight_def)
next
  case (Some a)
  show ?thesis
  proof (cases "a < length (elems st) \<and> j < length (el_words (elems st ! a))")
    case True
    with Some assms show ?thesis
      by (simp add: wordActive_def highlight_def Let_def highlightWords_nth)
  next
    case False
    with Some show ?thesis
      by (auto simp: wordActive_def highlight_def Let_def)
  qed
qed

lemma syncLyrics_shape:
  assumes "allCues st \<noteq> []"
  shows "\<exists>st2. syncLyrics st t =
            highlight st2 (findActive t (displayedCues (appendLyricsIfNeeded st t)) (allCues st) 0) t \<and>
          allCues st2 = allCues st \<and>
          (currentLyricIndex st =
             findActive t (displayedCues (appendLyricsIfNeeded st t)) (allCues st) 0
           \<longrightarrow> st2 = revealLoop t (allCues st) 0 st)"
proof (cases "currentLyricIndex st =
    findActive t (displayedCues (appendLyricsIfNeeded st t)) (allCues st) 0")
  case True
  with assms show ?thesis
    by (intro exI [of _ "revealLoop t (allCues st) 0 st"])
      (simp add: syncLyrics_def appendLyricsIfNeeded_def Let_def)
next
  case False
  let ?A = "findActive t (displayedCues (appendLyricsIfNeeded st t)) (allCues st) 0"
  let ?st1 = "appendLyricsIfNeeded st t"
  let ?st' = "activate (completePrevious ?st1 ?A) ?A"
  from False assms show ?thesis
    by (intro exI [of _ "?st'\<lparr>previousLyricIndex := currentLyricIndex ?st',
                               currentLyricIndex := ?A\<rparr>"])
      (simp add: syncLyrics_def appendLyricsIfNeeded_def Let_def)
qed

lemma word_stays_sung_next_tick:
  assumes le: "t1 \<le> t2"
    and cur1: "currentLyricIndex (syncLyrics st t1) = int i"
    and cur2: "currentLyricIndex (syncLyrics (syncLyrics st t1) t2) = int i"
    and j: "j < length (words (allCues st ! i))"
    and act: "wordActive (syncLyrics st t1) i j"
  shows "wordActive (syncLyrics (syncLyrics st t1) t2) i j"
proof (cases "allCues st = []")
  case True
  with act show ?thesis by (simp add: syncLyrics_empty)
next
  case False
  let ?s1 = "syncLyrics st t1"
  let ?n = "length (words (allCues st ! i))"
  let ?w = "words (allCues st ! i) ! j"
  from syncLyrics_shape [OF False, of t1] cur1 False obtain p where p:
    "?s1 = highlight p (int i) t1" "allCues p = allCues st"
    by (auto simp: syncLyrics_current)
  from act j p obtain a where a: "map_of (lyricsDisplay p) i = Some a" "a < length (elems p)"
    "j < length (el_words (elems p ! a))" "shouldHighlight t1 ?n ?w j"
    by (auto simp: wordActive_highlight)
  have cues1: "allCues ?s1 = allCues st" using p by simp
  with False have ne1: "allCues ?s1 \<noteq> []" by simp
  let ?r = "revealLoop t2 (allCues ?s1) 0 ?s1"
  from syncLyrics_shape [OF ne1, of t2] cur1 cur2 ne1
  have s2: "syncLyrics ?s1 t2 = highlight ?r (int i) t2"
    by (auto simp: syncLyrics_current)
  from revealLoop_extends [of t2 "allCues ?s1" 0 ?s1] obtain ext dext where r:
    "elems ?r = elems ?s1 @ ext" "lyricsDisplay ?r = lyricsDisplay ?s1 @ dext"
    by blast
  have d1: "lyricsDisplay ?s1 = lyricsDisplay p" by (simp add: p(1))
  have l1: "length (elems ?s1) = length (elems p)" by (simp add: p(1) highlight_shape)
  have w1: "length (el_words (elems ?s1 ! a)) = length (el_words (elems p ! a))"
    using a(2) by (simp add: p(1) highlight_shape)
  have "map_of (lyricsDisplay ?r) i = Some a" using r(2) d1 a(1) by simp
  moreover have "a < length (elems ?r)" using r(1) l1 a(2) by simp
  moreover have "j < length (el_words (elems ?r ! a))"
    using r(1) l1 w1 a(2,3) by (simp add: nth_append)
  moreover have "shouldHighlight t2 ?n ?w j" using le a(4) by (rule shouldHighlight_mono)
  moreover have "allCues ?r = allCues st" using cues1 by simp
  ultimately show ?thesis using j by (simp add: s2 wordActive_highlight)
qed

lemma syncLyrics_allCues [simp]: "allCues (syncLyrics st t) = allCues st"
  by (simp add: syncLyrics_def appendLyricsIfNeeded_def Let_def)

text \<open>
  Claim C6, as the code has it. Over a run of consecutive ticks whose times do not
  decrease and after each of which the same line is the active one, a word of the line
  that is marked active after the first tick is marked active after every tick of the
  run. (Every tick sets the mark of every word from the tick time alone.)
\<close>

theorem words_stay_sung_while_time_advances:
  assumes "sorted (t # ts)"
    and "\<forall>s \<in> set (tickStates st (t # ts)). currentLyricIndex s = int i"
    and "j < length (words (allCues st ! i))"
    and "wordActive (syncLyrics st t) i j"
  shows "\<forall>s \<in> set (tickStates st (t # ts)). wordActive s i j"
  using assms
proof (induction ts arbitrary: st t)
  case Nil
  then show ?case by simp
next
  case (Cons u us)
  let ?s1 = "syncLyrics st t"
  from Cons.prems(1) have le: "t \<le> u" and srt: "sorted (u # us)" by simp_all
  from Cons.prems(2) have c1: "currentLyricIndex ?s1 = int i"
    and c2: "currentLyricIndex (syncLyrics ?s1 u) = int i"
    and rest: "\<forall>s \<in> set (tickStates ?s1 (u # us)). currentLyricIndex s = int i"
    by simp_all
  have next_tick: "wordActive (syncLyrics ?s1 u) i j"
    using le c1 c2 Cons.prems(3,4) by (rule word_stays_sung_next_tick)
  from Cons.prems(3) have j: "j < length (words (allCues ?s1 ! i))" by simp
  from Cons.IH [OF srt rest j next_tick] Cons.prems(4) show ?case by simp
qed

theorem words_stay_sung_while_time_advances_witness:
  "sorted [10, 11, 12 :: rat] \<and>
   map currentLyricIndex (tickStates ex_loaded [10, 11, 12]) = [0, 0, 0] \<and>
   0 < length (words (allCues ex_loaded ! 0)) \<and>
   wordActive (syncLyrics ex_loaded 10) 0 0 \<and>
   map (\<lambda>s. wordActive s 0 0) (tickStates ex_loaded [10, 11, 12]) = [True, True, True]"
proof -
  have h1: "sorted [10, 11, 12 :: rat]" by simp
  have h2': "map currentLyricIndex (tickStates ex_loaded [10, 11, 12]) = [0, 0, 0]"
    by code_simp
  have h2: "\<forall>s \<in> set (tickStates ex_loaded [10, 11, 12]). currentLyricIndex s = int 0"
  proof
    fix s assume "s \<in> set (tickStates ex_loaded [10, 11, 12])"
    then have "currentLyricIndex s \<in> currentLyricIndex ` set (tickStates ex_loaded [10, 11, 12])"
      by (rule imageI)
    then have "currentLyricIndex s \<in> set (map currentLyricIndex (tickStates ex_loaded [10, 11, 12]))"
      by (simp only: set_map)
    then show "currentLyricIndex s = int 0" by (simp only: h2') simp
  qed
  have h3: "0 < length (words (allCues ex_loaded ! 0))" by (simp add: ex_loaded_allCues)
  have h4: "wordActive (syncLyrics ex_loaded 10) 0 0" by code_simp
  have "\<forall>s \<in> set (tickStates ex_loaded [10, 11, 12]). wordActive s 0 0"
    using h1 h2 h3 h4 by (rule words_stay_sung_while_time_advances)
  then have "map (\<lambda>s. wordActive s 0 0) (tickStates ex_loaded [10, 11, 12]) = [True, True, True]"
    by simp
  with h1 h2' h3 h4 show ?thesis by blast
qed

text \<open>
  The claim as the specification states it fails when the time goes back while the
  line stays active (a seek backwards inside the line): after a tick at 12 the second
  word of line 0 (time 11.5) is marked; after the next tick, at 10.5, line 0 is still
  the active line and the word is no longer marked.
\<close>

theorem word_unmarked_when_time_goes_back:
  "currentLyricIndex (syncLyrics ex_loaded 12) = 0 \<and>
   wordActive (syncLyrics ex_loaded 12) 0 1 \<and>
   currentLyricIndex (syncLyrics (syncLyrics ex_loaded 12) (21 / 2)) = 0 \<and>
   \<not> wordActive (syncLyrics (syncLyrics ex_loaded 12) (21 / 2)) 0 1"
  by code_simp

subsection \<open>Completion of a line\<close>

lemma nth_update_played:
  "a < length es \<Longrightarrow>
   el_played (es[b := e] ! a) = (if a = b then el_played e else el_played (es ! a))"
  by (cases "a = b") simp_all

lemma linePlayed_highlight: "linePlayed (highlight st x t) i = linePlayed st i"
  by (auto simp: linePlayed_def highlight_def Let_def nth_update_played
      split: option.splits if_splits)

lemma linePlayed_completePrevious: "linePlayed (completePrevious st x) i = linePlayed st i"
  by (auto simp: linePlayed_def completePrevious_def nth_update_played
      split: option.splits if_splits)

lemma linePlayed_activate: "linePlayed (activate st x) i \<Longrightarrow> linePlayed st i"
  by (auto simp: linePlayed_def activate_def nth_update_played split: option.splits if_splits)

lemma linePlayed_indices [simp]:
  "linePlayed (st\<lparr>previousLyricIndex := p, currentLyricIndex := c\<rparr>) i = linePlayed st i"
  by (simp add: linePlayed_def split: option.splits)

lemma linePlayed_revealLoop:
  assumes "linePlayed (revealLoop t cs k st) i"
  shows "linePlayed st i"
proof -
  let ?r = "revealLoop t cs k st"
  from revealLoop_extends [of t cs k st] obtain ext dext where r:
    "elems ?r = elems st @ ext" "lyricsDisplay ?r = lyricsDisplay st @ dext"
    "\<forall>e \<in> set ext. \<not> el_played e" "\<forall>p \<in> set dext. length (elems st) \<le> snd p"
    by blast
  from assms obtain a where a: "map_of (lyricsDisplay st @ dext) i = Some a"
    "a < length (elems st @ ext)" "el_played ((elems st @ ext) ! a)"
    by (auto simp: linePlayed_def r split: option.splits)
  have old: "a < length (elems st)"
  proof (rule ccontr)
    assume "\<not> a < length (elems st)"
    with a(2) have "(elems st @ ext) ! a \<in> set ext"
      by (simp add: nth_append)
    with r(3) a(3) show False by blast
  qed
  have "map_of (lyricsDisplay st) i = Some a"
  proof (cases "map_of (lyricsDisplay st) i")
    case None
    with a(1) have "map_of dext i = Some a" by (simp add: map_add_def)
    then have "(i, a) \<in> set dext" by (rule map_of_SomeD)
    with r(4) old show ?thesis by fastforce
  next
    case (Some a')
    with a(1) show ?thesis by (simp add: map_add_def)
  qed
  with old a(3) show ?thesis by (simp add: linePlayed_def nth_append)
qed

lemma linePlayed_syncLyrics:
  assumes "linePlayed (syncLyrics st t) i"
  shows "linePlayed st i"
proof (cases "allCues st = []")
  case True
  with assms show ?thesis by (simp add: syncLyrics_empty)
next
  case False
  let ?r = "revealLoop t (allCues st) 0 st"
  let ?A = "findActive t (displayedCues ?r) (allCues st) 0"
  have "linePlayed ?r i"
  proof (cases "?A = currentLyricIndex st")
    case True
    with False assms show ?thesis
      by (simp add: syncLyrics_def appendLyricsIfNeeded_def Let_def linePlayed_highlight)
  next
    case neq: False
    with False assms have "linePlayed (activate (completePrevious ?r ?A) ?A) i"
      by (simp add: syncLyrics_def appendLyricsIfNeeded_def Let_def linePlayed_highlight)
    then show ?thesis
      using linePlayed_activate linePlayed_completePrevious by blast
  qed
  then show ?thesis by (rule linePlayed_revealLoop)
qed

text \<open>
  Claim C7, as the code has it. The seek listener marks no line completed and
  schedules no completion: it leaves the current index, the previous index and the
  pending timeouts as they are, and a line shown as played after it was shown as
  played before it. A tick (also the one that follows a seek) marks no line completed
  either: the class \<open>played\<close> is only ever added by the callback that a tick has
  passed to \<open>setTimeout\<close> with a delay of 100 ms.
\<close>

theorem seek_completes_no_line:
  "currentLyricIndex (seekInput st T) = currentLyricIndex st \<and>
   previousLyricIndex (seekInput st T) = previousLyricIndex st \<and>
   timers (seekInput st T) = timers st \<and>
   (linePlayed (seekInput st T) i \<longrightarrow> linePlayed st i) \<and>
   (linePlayed (syncLyrics st t) i \<longrightarrow> linePlayed st i)"
  using linePlayed_revealLoop [of T "allCues st" 0 st i] linePlayed_syncLyrics [of st t i]
  by (simp add: seekInput_def)

theorem seek_completes_no_line_witness:
  "linePlayed (seekInput (run initial ex_events) 25) 0 \<and>
   linePlayed (syncLyrics (run initial ex_events) 31) 0 \<and>
   linePlayed (run initial ex_events) 0 \<and>
   timers (seekInput (run initial ex_events) 25) = timers (run initial ex_events)"
proof -
  have h1: "linePlayed (seekInput (run initial ex_events) 25) 0" by code_simp
  have h2: "linePlayed (syncLyrics (run initial ex_events) 31) 0" by code_simp
  show ?thesis
    using seek_completes_no_line [of "run initial ex_events" 25 0 31] h1 h2 by blast
qed

text \<open>
  The claim as the specification states it fails: line 0 is active, the user seeks to
  15, and after the listener has run line 0 is not shown as played, it is still the
  current line, and no timeout is pending. The tick that follows makes line 1 the
  current line; line 0 is still not shown as played and still no timeout is pending.
\<close>

theorem seek_leaves_active_line_uncompleted:
  "currentLyricIndex (syncLyrics ex_loaded 12) = 0 \<and>
   currentLyricIndex (seekInput (syncLyrics ex_loaded 12) 15) = 0 \<and>
   \<not> linePlayed (seekInput (syncLyrics ex_loaded 12) 15) 0 \<and>
   timers (seekInput (syncLyrics ex_loaded 12) 15) = [] \<and>
   currentLyricIndex (syncLyrics (seekInput (syncLyrics ex_loaded 12) 15) 15) = 1 \<and>
   \<not> linePlayed (syncLyrics (seekInput (syncLyrics ex_loaded 12) 15) 15) 0 \<and>
   timers (syncLyrics (seekInput (syncLyrics ex_loaded 12) 15) 15) = []"
  by code_simp

subsection \<open>The fallback: splitting on white space\<close>

declare spec_tokens.simps [simp del]

lemma spec_tokens_Nil [simp]: "spec_tokens [] = []"
  by (simp add: spec_tokens.simps)

lemma spec_tokens_space: "is_space c \<Longrightarrow> spec_tokens (c # cs) = spec_tokens (dropWhile is_space cs)"
  by (subst spec_tokens.simps, subst (2) spec_tokens.simps) (simp add: dropWhile_idem)

lemma spec_tokens_nonspace:
  "\<not> is_space c \<Longrightarrow>
   spec_tokens (c # cs) =
     takeWhile (\<lambda>c. \<not> is_space c) (c # cs) # spec_tokens (dropWhile (\<lambda>c. \<not> is_space c) (c # cs))"
  by (subst spec_tokens.simps) simp

lemma split_ws_not_Nil: "split_ws s \<noteq> []"
  by (induction s rule: split_ws.induct) (auto split: list.splits)

lemma split_ws_unfold:
  "split_ws s =
     takeWhile (\<lambda>c. \<not> is_space c) s #
       (case dropWhile (\<lambda>c. \<not> is_space c) s of
          [] \<Rightarrow> []
        | x # r \<Rightarrow> split_ws (dropWhile is_space r))"
proof (induction s)
  case Nil
  show ?case by simp
next
  case (Cons c cs)
  show ?case
  proof (cases "is_space c")
    case True
    then show ?thesis by simp
  next
    case False
    with Cons show ?thesis by (cases "split_ws cs") simp_all
  qed
qed

lemma split_ws_pieces: "p \<in> set (split_ws s) \<Longrightarrow> c \<in> set p \<Longrightarrow> \<not> is_space c"
proof (induction s arbitrary: p rule: length_induct)
  case (1 s)
  from 1(2) split_ws_unfold [of s]
  consider "p = takeWhile (\<lambda>c. \<not> is_space c) s"
    | x r where "dropWhile (\<lambda>c. \<not> is_space c) s = x # r" "p \<in> set (split_ws (dropWhile is_space r))"
    by (auto split: list.splits)
  then show ?case
  proof cases
    case 1
    with \<open>c \<in> set p\<close> show ?thesis by (auto dest: set_takeWhileD)
  next
    case 2
    have "length (dropWhile is_space r) \<le> length r" by (rule length_dropWhile_le)
    also have "length r < length (x # r)" by simp
    also have "length (x # r) \<le> length s"
      using 2(1) length_dropWhile_le [of "\<lambda>c. \<not> is_space c" s] by simp
    finally have "length (dropWhile is_space r) < length s" .
    with "1.IH" 2(2) \<open>c \<in> set p\<close> show ?thesis by blast
  qed
qed

lemma split_ws_tokens: "filter (\<lambda>w. w \<noteq> []) (split_ws s) = spec_tokens s"
proof (induction s rule: length_induct)
  case (1 s)
  show ?case
  proof (cases s)
    case Nil
    then show ?thesis by simp
  next
    case (Cons c cs)
    show ?thesis
    proof (cases "is_space c")
      case True
      have "length (dropWhile is_space cs) < length s"
        using Cons by (simp add: le_imp_less_Suc length_dropWhile_le)
      with "1.IH" have "filter (\<lambda>w. w \<noteq> []) (split_ws (dropWhile is_space cs)) =
          spec_tokens (dropWhile is_space cs)" by blast
      with True Cons show ?thesis by (simp add: spec_tokens_space)
    next
      case False
      let ?d = "dropWhile (\<lambda>c. \<not> is_space c) s"
      have rest: "filter (\<lambda>w. w \<noteq> [])
           (case ?d of [] \<Rightarrow> [] | x # r \<Rightarrow> split_ws (dropWhile is_space r)) = spec_tokens ?d"
      proof (cases ?d)
        case Nil
        then show ?thesis by (simp del: dropWhile_eq_Nil_conv)
      next
        case d: (Cons x r)
        then have "is_space x" using hd_dropWhile [of "\<lambda>c. \<not> is_space c" s] by auto
        have "length (dropWhile is_space r) \<le> length r" by (rule length_dropWhile_le)
        also have "length r < length ?d" using d by simp
        also have "length ?d \<le> length s" by (rule length_dropWhile_le)
        finally have "length (dropWhile is_space r) < length s" .
        with "1.IH" have "filter (\<lambda>w. w \<noteq> []) (split_ws (dropWhile is_space r)) =
            spec_tokens (dropWhile is_space r)" by blast
        with d \<open>is_space x\<close> show ?thesis by (simp add: spec_tokens_space)
      qed
      have "filter (\<lambda>w. w \<noteq> []) (split_ws s) = takeWhile (\<lambda>c. \<not> is_space c) s # spec_tokens ?d"
        by (subst split_ws_unfold) (use False Cons rest in simp)
      with False Cons show ?thesis by (simp add: spec_tokens_nonspace)
    qed
  qed
qed

lemma trim_no_space: "\<forall>c \<in> set w. \<not> is_space c \<Longrightarrow> trim w = w"
proof -
  assume a: "\<forall>c \<in> set w. \<not> is_space c"
  then have "dropWhile is_space w = w" by (cases w) simp_all
  moreover from a have "dropWhile is_space (rev w) = rev w" by (cases "rev w") (simp, force)
  ultimately show ?thesis by (simp add: trim_def)
qed

lemma trim_empty_iff: "trim s = [] \<longleftrightarrow> (\<forall>c \<in> set s. is_space c)"
proof
  assume "trim s = []"
  then have "dropWhile is_space (rev (dropWhile is_space s)) = []" by (simp add: trim_def)
  then have "\<forall>c \<in> set (rev (dropWhile is_space s)). is_space c"
    by (simp add: dropWhile_eq_Nil_conv)
  then have "dropWhile is_space s = []"
    using hd_dropWhile [of is_space s] by (cases "dropWhile is_space s") auto
  then show "\<forall>c \<in> set s. is_space c" by (simp add: dropWhile_eq_Nil_conv)
next
  assume "\<forall>c \<in> set s. is_space c"
  then have "dropWhile is_space s = []" by simp
  then show "trim s = []" by (simp add: trim_def del: dropWhile_eq_Nil_conv)
qed

lemma fallback_words:
  assumes "wordRegex_exec 0 text0 = []"
  shows "cueWords s text0 = map (\<lambda>tok. \<lparr>time = Num s, text' = tok\<rparr>) (spec_tokens text0)"
proof (cases "trim text0 = []")
  case True
  then have "\<forall>c \<in> set text0. is_space c" by (simp add: trim_empty_iff)
  then have "dropWhile is_space text0 = []" by simp
  then have "spec_tokens text0 = []" by (subst spec_tokens.simps) simp
  with True assms show ?thesis by (simp add: cueWords_def)
next
  case False
  have same: "trim w = w" if "w \<in> set (split_ws text0)" for w
    using that split_ws_pieces [of w text0] by (intro trim_no_space) blast
  then have "filter (\<lambda>w. trim w \<noteq> []) (split_ws text0) = filter (\<lambda>w. w \<noteq> []) (split_ws text0)"
    by (intro filter_cong) simp_all
  moreover have "map (\<lambda>w. \<lparr>time = Num s, text' = trim w\<rparr>) (filter (\<lambda>w. w \<noteq> []) (split_ws text0))
      = map (\<lambda>w. \<lparr>time = Num s, text' = w\<rparr>) (filter (\<lambda>w. w \<noteq> []) (split_ws text0))"
    using same by (intro map_cong) simp_all
  ultimately show ?thesis using False assms by (simp add: cueWords_def split_ws_tokens)
qed

lemma no_bracket_no_match: "CHR ''<'' \<notin> set s \<Longrightarrow> wordRegex_exec k s = []"
  by (induction k s rule: wordRegex_exec.induct) (auto simp: wordRegex_at_def)

text \<open>
  Claim C8. For a cue text in which the marker pattern matches nowhere and that has at
  least one character other than white space, the parser returns exactly one word per
  white-space-delimited token of the text, in order, every one with the cue's start
  time; there is at least one. The same holds for \<open>processCue\<close>.
\<close>

theorem fallback_one_word_per_token:
  assumes "wordRegex_exec 0 (cueText cue) = []"
    and "\<exists>c \<in> set (cueText cue). \<not> is_space c"
  shows "words (parseCue cue i) =
           map (\<lambda>tok. \<lparr>time = Num (startTime cue), text' = tok\<rparr>) (spec_tokens (cueText cue)) \<and>
         spec_tokens (cueText cue) \<noteq> [] \<and>
         processCue lyrics cue =
           lyrics @ [\<lparr>lineStart = startTime cue, lineEnd = endTime cue,
                      lineWords = map (\<lambda>tok. \<lparr>time = Num (startTime cue), text' = tok\<rparr>)
                                    (spec_tokens (cueText cue))\<rparr>]"
proof -
  let ?t = "cueText cue"
  from assms(2) have "dropWhile is_space ?t \<noteq> []" by (simp add: dropWhile_eq_Nil_conv)
  then have ne: "spec_tokens ?t \<noteq> []" by (subst spec_tokens.simps) (simp add: Let_def)
  with fallback_words [OF assms(1), of "startTime cue"] show ?thesis
    by (simp add: parseCue_def processCue_def)
qed

theorem fallback_one_word_per_token_witness:
  "wordRegex_exec 0 (cueText ex_cue_plain) = [] \<and>
   (\<exists>c \<in> set (cueText ex_cue_plain). \<not> is_space c) \<and>
   spec_tokens (cueText ex_cue_plain) = [''one'', ''two'', ''three''] \<and>
   words (parseCue ex_cue_plain 0) =
     [\<lparr>time = Num 3, text' = ''one''\<rparr>, \<lparr>time = Num 3, text' = ''two''\<rparr>,
      \<lparr>time = Num 3, text' = ''three''\<rparr>]"
proof -
  have h1: "wordRegex_exec 0 (cueText ex_cue_plain) = []"
    by (rule no_bracket_no_match) (simp add: ex_cue_plain_def)
  have h2: "\<exists>c \<in> set (cueText ex_cue_plain). \<not> is_space c"
    by (simp add: ex_cue_plain_def is_space_def)
  have h3: "spec_tokens (cueText ex_cue_plain) = [''one'', ''two'', ''three'']"
    by code_simp
  have h4: "startTime ex_cue_plain = 3" by (simp add: ex_cue_plain_def)
  show ?thesis
    using fallback_one_word_per_token [OF h1 h2, of 0 "[]"] h1 h2 h3 h4 by simp
qed

subsection \<open>Words with markers\<close>

lemma digit_cases: "k < 10 \<Longrightarrow> k = 0 \<or> k = 1 \<or> k = 2 \<or> k = 3 \<or> k = 4 \<or> k = 5 \<or> k = 6 \<or> k = 7 \<or> k = 8 \<or> k = (9::nat)"
  by arith

lemma digit_char_facts:
  assumes "k < 10"
  shows "is_digit (digit_char k)" "digit_val (digit_char k) = k"
    "digit_char k \<noteq> CHR '':''" "digit_char k \<noteq> CHR ''.''" "digit_char k \<noteq> CHR ''-''"
    "digit_char k \<noteq> CHR ''+''" "\<not> is_space (digit_char k)" "CHR ''<'' \<noteq> digit_char k"
  using digit_cases [OF assms]
  by (auto simp: digit_char_def is_digit_def digit_val_def is_space_def)

lemma not_digit [simp]: "\<not> is_digit CHR ''.''" "\<not> is_digit CHR '':''" "\<not> is_digit CHR ''>''"
  by (simp_all add: is_digit_def)


lemma div_mod_bounds:
  "n < 100 \<Longrightarrow> n div 10 < (10::nat)" "n mod 10 < (10::nat)"
  "n < 1000 \<Longrightarrow> n div 100 < (10::nat)" "n div 10 mod 10 < (10::nat)"
  by simp_all

lemma two_digits_val: "n < 100 \<Longrightarrow> digits_val (two_digits n) = n"
  by (simp add: two_digits_def digits_val_def digit_char_facts div_mod_bounds)

lemma hundreds_tens_units: "100 * (n div 100) + 10 * (n div 10 mod 10) + n mod 10 = (n::nat)"
proof -
  define q where "q = n div 10"
  have a: "n div 100 = q div 10" by (simp add: q_def div_mult2_eq)
  have "100 * (n div 100) + 10 * (n div 10 mod 10) + n mod 10 =
      10 * (10 * (q div 10) + q mod 10) + n mod 10"
    unfolding a q_def [symmetric] by (simp only: distrib_left mult.assoc [symmetric])
  also have "\<dots> = 10 * q + n mod 10" by simp
  also have "\<dots> = n" by (simp add: q_def)
  finally show ?thesis .
qed

lemma three_digits_val: "n < 1000 \<Longrightarrow> digits_val (three_digits n) = n"
proof -
  assume "n < 1000"
  then have "digits_val (three_digits n) = 100 * (n div 100) + 10 * (n div 10 mod 10) + n mod 10"
    by (simp add: three_digits_def digits_val_def digit_char_facts div_mod_bounds)
  then show ?thesis by (simp only: hundreds_tens_units)
qed

lemma parseInt10_two_digits: "n < 100 \<Longrightarrow> parseInt10 (two_digits n) = Num (of_nat n)"
proof -
  assume n: "n < 100"
  have d: "dropWhile is_space (two_digits n) = two_digits n"
    using n by (simp add: two_digits_def digit_char_facts div_mod_bounds)
  have s: "signed (two_digits n) = (1, two_digits n)"
    using n by (simp add: signed_def two_digits_def digit_char_facts div_mod_bounds)
  have t: "takeWhile is_digit (two_digits n) = two_digits n"
    using n by (simp add: two_digits_def digit_char_facts div_mod_bounds)
  have ne: "two_digits n \<noteq> []" by (simp add: two_digits_def)
  show ?thesis using n ne by (simp add: parseInt10_def d s t two_digits_val)
qed

lemma parseFloat_seconds:
  assumes "s < 100" and "ms < 1000"
  shows "parseFloat (two_digits s @ CHR ''.'' # three_digits ms) = Num (of_nat s + of_nat ms / 1000)"
proof -
  let ?str = "two_digits s @ CHR ''.'' # three_digits ms"
  have d: "dropWhile is_space ?str = ?str"
    using assms by (simp add: two_digits_def digit_char_facts div_mod_bounds)
  have sg: "signed ?str = (1, ?str)"
    using assms by (simp add: signed_def two_digits_def digit_char_facts div_mod_bounds)
  have ip: "takeWhile is_digit ?str = two_digits s"
    using assms by (simp add: two_digits_def digit_char_facts div_mod_bounds)
  have dr: "dropWhile is_digit ?str = CHR ''.'' # three_digits ms"
    using assms by (simp add: two_digits_def digit_char_facts div_mod_bounds)
  have fp: "takeWhile is_digit (three_digits ms) = three_digits ms"
    using assms by (simp add: three_digits_def digit_char_facts div_mod_bounds)
  have ne: "two_digits s \<noteq> []" and l: "length (three_digits ms) = 3"
    by (simp_all add: two_digits_def three_digits_def)
  show ?thesis
    using assms ne
    by (simp add: parseFloat_def d sg ip dr fp l two_digits_val three_digits_val)
qed

lemma split_on_two_digits:
  "n < 100 \<Longrightarrow> split_on CHR '':'' (two_digits n @ CHR '':'' # r) = two_digits n # split_on CHR '':'' r"
  by (simp add: two_digits_def digit_char_facts div_mod_bounds split: list.splits)

lemma split_on_seconds:
  "s < 100 \<Longrightarrow> ms < 1000 \<Longrightarrow>
   split_on CHR '':'' (two_digits s @ CHR ''.'' # three_digits ms) = [two_digits s @ CHR ''.'' # three_digits ms]"
  by (simp add: two_digits_def three_digits_def digit_char_facts div_mod_bounds)

lemma timeToSeconds_stamp:
  assumes "well_formed x"
  shows "timeToSeconds (stamp x) = Num (seconds_of x)"
proof -
  from assms have b: "hh x < 100" "mm x < 100" "ss x < 100" "mmm x < 1000"
    by (simp_all add: well_formed_def)
  have "split_on CHR '':'' (stamp x) =
      [two_digits (hh x), two_digits (mm x), two_digits (ss x) @ CHR ''.'' # three_digits (mmm x)]"
    using b by (simp add: stamp_def split_on_two_digits split_on_seconds)
  then show ?thesis
    using b by (simp add: timeToSeconds_def parseInt10_two_digits parseFloat_seconds seconds_of_def)
qed

lemma timeToSeconds_short:
  assumes "m < 100" "s < 100" "ms < 1000"
  shows "timeToSeconds (two_digits m @ CHR '':'' # two_digits s @ CHR ''.'' # three_digits ms) =
           Num (of_nat m * 60 + (of_nat s + of_nat ms / 1000))"
proof -
  have "split_on CHR '':'' (two_digits m @ CHR '':'' # two_digits s @ CHR ''.'' # three_digits ms) =
      [two_digits m, two_digits s @ CHR ''.'' # three_digits ms]"
    using assms by (simp add: split_on_two_digits split_on_seconds)
  then show ?thesis
    using assms by (simp add: timeToSeconds_def parseInt10_two_digits parseFloat_seconds)
qed


lemma stamp_chars:
  "stamp x =
     [digit_char (hh x div 10), digit_char (hh x mod 10), CHR '':'',
      digit_char (mm x div 10), digit_char (mm x mod 10), CHR '':'',
      digit_char (ss x div 10), digit_char (ss x mod 10), CHR ''.'',
      digit_char (mmm x div 100), digit_char (mmm x div 10 mod 10), digit_char (mmm x mod 10)]"
  by (simp add: stamp_def two_digits_def three_digits_def)

lemma match_marked:
  assumes "well_formed x"
  shows "match_atoms (Lit CHR ''<'' # stamp_atoms @ [Lit CHR ''>'']) (marked x @ rest) =
           Some (token x @ rest)"
proof -
  from assms have b: "hh x < 100" "mm x < 100" "ss x < 100" "mmm x < 1000"
    by (simp_all add: well_formed_def)
  then show ?thesis
    by (simp add: marked_def stamp_chars stamp_atoms_def digit_char_facts div_mod_bounds)
qed

lemma takeWhile_token:
  assumes "CHR ''<'' \<notin> set tok" and "rest = [] \<or> hd rest = CHR ''<''"
  shows "takeWhile (\<lambda>c. c \<noteq> CHR ''<'') (tok @ rest) = tok"
  using assms
proof (induction tok)
  case Nil
  then show ?case by (cases rest) auto
next
  case (Cons c tok)
  then show ?case by auto
qed

lemma wordRegex_at_marked:
  assumes "well_formed x" and "rest = [] \<or> hd rest = CHR ''<''"
  shows "wordRegex_at (marked x @ rest) = Some (stamp x, token x, 14 + length (token x))"
proof -
  from assms(1) have tok: "token x \<noteq> []" "CHR ''<'' \<notin> set (token x)"
    by (simp_all add: well_formed_def)
  have g1: "take 12 (drop 1 (marked x @ rest)) = stamp x"
    by (simp add: marked_def stamp_chars)
  show ?thesis
    unfolding wordRegex_at_def match_marked [OF assms(1)]
    using tok g1 by (simp add: takeWhile_token [OF tok(2) assms(2)] Let_def)
qed

lemma wordRegex_exec_skip: "wordRegex_exec k s = wordRegex_exec 0 (drop k s)"
proof (induction k s rule: wordRegex_exec.induct)
  case (1 k)
  show ?case by simp
next
  case (2 k c cs)
  then show ?case by simp
next
  case (3 c cs)
  show ?case by simp
qed

lemma length_marked: "length (marked x) = 14 + length (token x)"
  by (simp add: marked_def stamp_chars)

lemma wordRegex_exec_marked:
  assumes "well_formed x" and "rest = [] \<or> hd rest = CHR ''<''"
  shows "wordRegex_exec 0 (marked x @ rest) = (stamp x, token x) # wordRegex_exec 0 rest"
proof -
  obtain cs where cs: "marked x @ rest = CHR ''<'' # cs"
    by (simp add: marked_def)
  have dr: "drop (13 + length (token x)) cs = rest"
  proof -
    have "drop (Suc (13 + length (token x))) (marked x @ rest) = rest"
      by (simp add: length_marked)
    then show ?thesis by (simp only: cs drop_Suc_Cons)
  qed
  have "wordRegex_exec 0 (CHR ''<'' # cs) =
      (stamp x, token x) # wordRegex_exec (14 + length (token x) - 1) cs"
    using wordRegex_at_marked [OF assms] by (simp add: cs)
  also have "wordRegex_exec (14 + length (token x) - 1) cs = wordRegex_exec 0 rest"
    by (subst wordRegex_exec_skip) (simp add: dr)
  finally show ?thesis by (simp add: cs)
qed

lemma marked_starts: "hd (marked x @ rest) = CHR ''<''"
  by (simp add: marked_def)

lemma concat_marked_starts:
  "concat (map marked xs) = [] \<or> hd (concat (map marked xs)) = CHR ''<''"
  by (cases xs) (simp_all add: marked_starts)

lemma wordRegex_exec_all_marked:
  "\<forall>x \<in> set xs. well_formed x \<Longrightarrow>
   wordRegex_exec 0 (concat (map marked xs)) = map (\<lambda>x. (stamp x, token x)) xs"
proof (induction xs)
  case Nil
  show ?case by simp
next
  case (Cons x xs)
  then have "well_formed x" by simp
  from wordRegex_exec_marked [OF this concat_marked_starts [of xs]] Cons show ?case
    by simp
qed

lemma digit_char_inverse: "is_digit c \<Longrightarrow> digit_val c < 10 \<and> digit_char (digit_val c) = c"
  by (auto simp: is_digit_def digit_val_def digit_char_def)

lemma match_atoms_Digit:
  "match_atoms (Digit # as) s = Some r \<longleftrightarrow>
     (\<exists>c cs. s = c # cs \<and> is_digit c \<and> match_atoms as cs = Some r)"
  by (cases s) auto

lemma match_atoms_Lit:
  "match_atoms (Lit l # as) s = Some r \<longleftrightarrow> (\<exists>cs. s = l # cs \<and> match_atoms as cs = Some r)"
  by (cases s) auto

lemma two_digits_of_chars:
  assumes "is_digit a" "is_digit b"
  shows "10 * digit_val a + digit_val b < 100 \<and> two_digits (10 * digit_val a + digit_val b) = [a, b]"
proof -
  from assms have a: "digit_val a < 10" "digit_char (digit_val a) = a"
    and b: "digit_val b < 10" "digit_char (digit_val b) = b"
    by (simp_all add: digit_char_inverse)
  from a(1) b(1) have "(10 * digit_val a + digit_val b) div 10 = digit_val a"
    "(10 * digit_val a + digit_val b) mod 10 = digit_val b"
    "10 * digit_val a + digit_val b < 100" by simp_all
  with a(2) b(2) show ?thesis by (simp add: two_digits_def)
qed

lemma three_digits_of_chars:
  assumes "is_digit a" "is_digit b" "is_digit c"
  shows "100 * digit_val a + 10 * digit_val b + digit_val c < 1000 \<and>
         three_digits (100 * digit_val a + 10 * digit_val b + digit_val c) = [a, b, c]"
proof -
  from assms have a: "digit_val a < 10" "digit_char (digit_val a) = a"
    and b: "digit_val b < 10" "digit_char (digit_val b) = b"
    and c: "digit_val c < 10" "digit_char (digit_val c) = c"
    by (simp_all add: digit_char_inverse)
  let ?n = "100 * digit_val a + 10 * digit_val b + digit_val c"
  have n: "?n = 10 * (10 * digit_val a + digit_val b) + digit_val c" by simp
  have md: "(10 * k + d) mod 10 = d \<and> (10 * k + d) div 10 = k" if "d < 10" for k d :: nat
    using that by simp
  have u: "?n mod 10 = digit_val c" and t: "?n div 10 = 10 * digit_val a + digit_val b"
    using md [OF c(1), of "10 * digit_val a + digit_val b"] by (simp_all only: n)
  from b(1) have "?n div 10 mod 10 = digit_val b" unfolding t by simp
  moreover from a(1) b(1) c(1) have "?n div 100 = digit_val a" "?n < 1000" by simp_all
  ultimately show ?thesis using u a(2) b(2) c(2) by (simp add: three_digits_def)
qed

lemma wordRegex_at_shape:
  assumes "wordRegex_at s = Some (g1, g2, n)"
  shows "\<exists>x. well_formed x \<and> g1 = stamp x \<and> g2 = token x"
proof -
  from assms obtain r where r:
    "match_atoms (Lit CHR ''<'' # stamp_atoms @ [Lit CHR ''>'']) s = Some r"
    and g2: "g2 = takeWhile (\<lambda>c. c \<noteq> CHR ''<'') r" "g2 \<noteq> []"
    and g1: "g1 = take 12 (drop 1 s)"
    by (auto simp: wordRegex_at_def Let_def split: option.splits if_splits)
  from r obtain h1 h2 m1 m2 s1 s2 f1 f2 f3 where
    s: "s = [CHR ''<'', h1, h2, CHR '':'', m1, m2, CHR '':'', s1, s2, CHR ''.'', f1, f2, f3, CHR ''>''] @ r"
    and d: "is_digit h1" "is_digit h2" "is_digit m1" "is_digit m2" "is_digit s1" "is_digit s2"
      "is_digit f1" "is_digit f2" "is_digit f3"
    by (auto simp: stamp_atoms_def match_atoms_Digit match_atoms_Lit)
  let ?x = "\<lparr>hh = 10 * digit_val h1 + digit_val h2, mm = 10 * digit_val m1 + digit_val m2,
             ss = 10 * digit_val s1 + digit_val s2,
             mmm = 100 * digit_val f1 + 10 * digit_val f2 + digit_val f3, token = g2\<rparr>"
  have no: "CHR ''<'' \<notin> set g2" unfolding g2(1) by (auto dest: set_takeWhileD)
  have "well_formed ?x"
    using d g2(2) no two_digits_of_chars three_digits_of_chars by (simp add: well_formed_def)
  moreover have "g1 = stamp ?x"
    using d two_digits_of_chars three_digits_of_chars by (simp add: g1 s stamp_def)
  ultimately show ?thesis by (intro exI [of _ ?x]) simp
qed

lemma wordRegex_exec_shape:
  "m \<in> set (wordRegex_exec k s) \<Longrightarrow> \<exists>x. well_formed x \<and> m = (stamp x, token x)"
proof (induction k s rule: wordRegex_exec.induct)
  case (1 k)
  then show ?case by simp
next
  case (2 k c cs)
  then show ?case by simp
next
  case (3 c cs)
  show ?case
  proof (cases "wordRegex_at (c # cs)")
    case None
    with 3 show ?thesis by simp
  next
    case (Some t)
    obtain g1 g2 n where t: "t = (g1, g2, n)" by (cases t)
    with Some 3(3) have "m = (g1, g2) \<or> m \<in> set (wordRegex_exec (n - 1) cs)" by simp
    then show ?thesis
    proof
      assume "m = (g1, g2)"
      with wordRegex_at_shape [of "c # cs" g1 g2 n] Some t show ?thesis by simp
    next
      assume "m \<in> set (wordRegex_exec (n - 1) cs)"
      with 3(2) Some t show ?thesis by simp
    qed
  qed
qed

lemma list_of_shapes:
  "\<forall>m \<in> set ms. \<exists>x. well_formed x \<and> m = (stamp x, token x) \<Longrightarrow>
   \<exists>xs. (\<forall>x \<in> set xs. well_formed x) \<and> ms = map (\<lambda>x. (stamp x, token x)) xs"
proof (induction ms)
  case Nil
  show ?case by simp
next
  case (Cons m ms)
  then obtain x xs where "well_formed x" "m = (stamp x, token x)"
    "\<forall>x \<in> set xs. well_formed x" "ms = map (\<lambda>x. (stamp x, token x)) xs"
    by auto
  then show ?case by (intro exI [of _ "x # xs"]) simp
qed

lemma matchWord_spec: "well_formed x \<Longrightarrow> matchWord (stamp x, token x) = spec_word x"
  by (simp add: matchWord_def spec_word_def timeToSeconds_stamp Let_def)

lemma words_of_matches:
  assumes "\<forall>x \<in> set xs. well_formed x"
    and "wordRegex_exec 0 text0 = map (\<lambda>x. (stamp x, token x)) xs" and "xs \<noteq> []"
  shows "cueWords st text0 = concat (map spec_word xs)"
proof -
  have "map (\<lambda>x. matchWord (stamp x, token x)) xs = map spec_word xs"
    using assms(1) by (intro map_cong refl) (simp add: matchWord_spec)
  then have eq: "concat (map (\<lambda>x. matchWord (stamp x, token x)) xs) = concat (map spec_word xs)"
    by (rule arg_cong)
  from assms(2,3) show ?thesis by (simp add: cueWords_def Let_def comp_def eq)
qed

lemma short_marker_no_match:
  assumes "m < 100" "s < 100" "ms < 1000" "CHR ''<'' \<notin> set rest"
  shows "wordRegex_exec 0
           (CHR ''<'' # two_digits m @ CHR '':'' # two_digits s @ CHR ''.'' # three_digits ms @
            CHR ''>'' # rest) = []"
proof -
  let ?tail = "two_digits m @ CHR '':'' # two_digits s @ CHR ''.'' # three_digits ms @ CHR ''>'' # rest"
  have "wordRegex_at (CHR ''<'' # ?tail) = None"
    using assms
    by (simp add: wordRegex_at_def stamp_atoms_def two_digits_def three_digits_def
        digit_char_facts div_mod_bounds)
  moreover have "CHR ''<'' \<notin> set ?tail"
    using assms by (simp add: two_digits_def three_digits_def digit_char_facts div_mod_bounds)
  then have "wordRegex_exec 0 ?tail = []" by (rule no_bracket_no_match)
  ultimately show ?thesis by simp
qed

text \<open>
  Claim C2, as the code has it. For markers of the form \<open><HH:MM:SS.mmm>\<close>: whenever
  the pattern matches in a cue text, every match is such a marker with its token, and
  the parser returns, for the matches in order, the word whose time is hours times 3600
  plus minutes times 60 plus seconds and whose text is the trimmed token, for the tokens
  that are not empty after trimming. A text made only of such markers, each followed
  by its token, gives exactly the words of these markers. A marker of the form
  \<open><MM:SS.mmm>\<close> is not a match of the pattern, although \<open>timeToSeconds\<close> converts
  that form too.
\<close>

theorem marker_words:
  "(wordRegex_exec 0 (cueText cue) \<noteq> [] \<longrightarrow>
      (\<exists>xs. (\<forall>x \<in> set xs. well_formed x) \<and>
            wordRegex_exec 0 (cueText cue) = map (\<lambda>x. (stamp x, token x)) xs \<and>
            words (parseCue cue i) = concat (map spec_word xs))) \<and>
   ((\<forall>x \<in> set ys. well_formed x) \<and> cueText cue = concat (map marked ys) \<longrightarrow>
      words (parseCue cue i) = concat (map spec_word ys)) \<and>
   (m < 100 \<and> s < 100 \<and> ms < 1000 \<and> CHR ''<'' \<notin> set rest \<longrightarrow>
      wordRegex_exec 0 (CHR ''<'' # short_stamp m s ms @ CHR ''>'' # rest) = [] \<and>
      timeToSeconds (short_stamp m s ms) =
        Num (of_nat m * 60 + (of_nat s + of_nat ms / 1000)))"
proof (intro conjI impI)
  assume ne: "wordRegex_exec 0 (cueText cue) \<noteq> []"
  have "\<forall>m \<in> set (wordRegex_exec 0 (cueText cue)). \<exists>x. well_formed x \<and> m = (stamp x, token x)"
    using wordRegex_exec_shape by blast
  from list_of_shapes [OF this] obtain xs where xs: "\<forall>x \<in> set xs. well_formed x"
    "wordRegex_exec 0 (cueText cue) = map (\<lambda>x. (stamp x, token x)) xs"
    by blast
  with ne have "xs \<noteq> []" by auto
  from words_of_matches [OF xs this, of "startTime cue"] xs
  show "\<exists>xs. (\<forall>x \<in> set xs. well_formed x) \<and>
            wordRegex_exec 0 (cueText cue) = map (\<lambda>x. (stamp x, token x)) xs \<and>
            words (parseCue cue i) = concat (map spec_word xs)"
    by (auto simp: parseCue_def)
next
  assume a: "(\<forall>x \<in> set ys. well_formed x) \<and> cueText cue = concat (map marked ys)"
  then have wf: "\<forall>x \<in> set ys. well_formed x" and tx: "cueText cue = concat (map marked ys)"
    by simp_all
  have ms: "wordRegex_exec 0 (cueText cue) = map (\<lambda>x. (stamp x, token x)) ys"
    unfolding tx using wf by (rule wordRegex_exec_all_marked)
  show "words (parseCue cue i) = concat (map spec_word ys)"
  proof (cases "ys = []")
    case True
    with tx show ?thesis by (simp add: parseCue_def cueWords_def trim_def)
  next
    case False
    from words_of_matches [OF wf ms False] show ?thesis by (simp add: parseCue_def)
  qed
next
  assume "m < 100 \<and> s < 100 \<and> ms < 1000 \<and> CHR ''<'' \<notin> set rest"
  then show "wordRegex_exec 0 (CHR ''<'' # short_stamp m s ms @ CHR ''>'' # rest) = []"
    using short_marker_no_match [of m s ms rest] by (simp add: short_stamp_def)
next
  assume "m < 100 \<and> s < 100 \<and> ms < 1000 \<and> CHR ''<'' \<notin> set rest"
  then show "timeToSeconds (short_stamp m s ms) =
      Num (of_nat m * 60 + (of_nat s + of_nat ms / 1000))"
    using timeToSeconds_short [of m s ms] by (simp add: short_stamp_def)
qed

theorem marker_words_witness:
  "wordRegex_exec 0 (cueText ex_cue0) \<noteq> [] \<and>
   (\<exists>xs. (\<forall>x \<in> set xs. well_formed x) \<and>
         wordRegex_exec 0 (cueText ex_cue0) = map (\<lambda>x. (stamp x, token x)) xs \<and>
         words (parseCue ex_cue0 0) = concat (map spec_word xs)) \<and>
   well_formed (ex_marked ! 0) \<and> well_formed (ex_marked ! 1) \<and>
   cueText ex_cue0 = concat (map marked ex_marked) \<and>
   words (parseCue ex_cue0 0) =
     [\<lparr>time = Num 10, text' = ''Hello''\<rparr>, \<lparr>time = Num (23 / 2), text' = ''world''\<rparr>] \<and>
   CHR ''<'' \<notin> set ''hi'' \<and>
   CHR ''<'' # short_stamp 1 30 0 @ CHR ''>'' # ''hi'' = ''<01:30.000>hi'' \<and>
   wordRegex_exec 0 ''<01:30.000>hi'' = [] \<and>
   timeToSeconds ''01:30.000'' = Num 90"
proof -
  note inst = marker_words [of ex_cue0 0 ex_marked 1 30 0 "''hi''"]
  have h1: "wordRegex_exec 0 (cueText ex_cue0) \<noteq> []" by code_simp
  have h2: "well_formed (ex_marked ! 0)" "well_formed (ex_marked ! 1)"
    by (simp_all add: ex_marked_def well_formed_def)
  have h2': "\<forall>x \<in> set ex_marked. well_formed x"
    by (simp add: ex_marked_def well_formed_def)
  have h3: "cueText ex_cue0 = concat (map marked ex_marked)" by code_simp
  have h4: "concat (map spec_word ex_marked) =
      [\<lparr>time = Num 10, text' = ''Hello''\<rparr>, \<lparr>time = Num (23 / 2), text' = ''world''\<rparr>]"
    by code_simp
  have h5: "(1::nat) < 100 \<and> (30::nat) < 100 \<and> (0::nat) < 1000 \<and> CHR ''<'' \<notin> set ''hi''"
    by simp
  have h6: "CHR ''<'' # short_stamp 1 30 0 @ CHR ''>'' # ''hi'' = ''<01:30.000>hi''"
    by code_simp
  have h7: "short_stamp 1 30 0 = ''01:30.000''" by code_simp
  have c1: "\<exists>xs. (\<forall>x \<in> set xs. well_formed x) \<and>
         wordRegex_exec 0 (cueText ex_cue0) = map (\<lambda>x. (stamp x, token x)) xs \<and>
         words (parseCue ex_cue0 0) = concat (map spec_word xs)"
    using inst h1 by blast
  have "words (parseCue ex_cue0 0) = concat (map spec_word ex_marked)"
    using inst h2' h3 by blast
  then have c2: "words (parseCue ex_cue0 0) =
      [\<lparr>time = Num 10, text' = ''Hello''\<rparr>, \<lparr>time = Num (23 / 2), text' = ''world''\<rparr>]"
    by (simp only: h4)
  have c3: "wordRegex_exec 0 (CHR ''<'' # short_stamp 1 30 0 @ CHR ''>'' # ''hi'') = []"
    and c4: "timeToSeconds (short_stamp 1 30 0) =
      Num (of_nat 1 * 60 + (of_nat 30 + of_nat 0 / 1000))"
    using inst h5 by blast+
  from c3 have c3': "wordRegex_exec 0 ''<01:30.000>hi'' = []" by (simp only: h6)
  from c4 have "timeToSeconds ''01:30.000'' = Num (of_nat 1 * 60 + (of_nat 30 + of_nat 0 / 1000))"
    by (simp only: h7)
  then have c4': "timeToSeconds ''01:30.000'' = Num 90" by simp
  from h5 have h5': "CHR ''<'' \<notin> set ''hi''" by blast
  show ?thesis using h1 c1 h2 h3 c2 h5' h6 c3' c4' by blast
qed

text \<open>
  The claim as the specification states it fails for the form \<open>MM:SS.mmm\<close>: in the
  text \<open><01:30.000>hi\<close> the pattern matches nowhere, so the cue does not get the word
  \<open>hi\<close> at 90 seconds; the fallback makes the whole text one word at the cue's start
  time, 5.
\<close>

theorem short_marker_not_parsed:
  "timeToSeconds ''01:30.000'' = Num 90 \<and>
   wordRegex_exec 0 (cueText ex_cue_short) = [] \<and>
   words (parseCue ex_cue_short 0) = [\<lparr>time = Num 5, text' = ''<01:30.000>hi''\<rparr>] \<and>
   words (parseCue ex_cue_short 0) \<noteq> [\<lparr>time = Num 90, text' = ''hi''\<rparr>]"
  by code_simp

end
